theory Spec2Isabelle
  imports Complex_Main "HOL-Library.Word"
begin

section \<open>The embedding engine of qwen3_embedding_jni.cpp\<close>

text \<open>
  The file under verification is the JNI shell around the llama.cpp runtime: three entry
  points (\<open>nativeInit\<close>, \<open>nativeEmbed\<close>, \<open>nativeRelease\<close>) and the helpers
  \<open>ensure_backend\<close>, \<open>tokenize\<close> and \<open>normalize_l2\<close>. The runtime itself
  (every \<open>llama_*\<close> function) is not part of the repository; it is a parameter of the
  model, a record of functions. Native memory is an explicit store: pointers are natural
  numbers, \<open>0\<close> is \<open>nullptr\<close>, and every allocation, release and log line is appended
  to a list of events, so that "released exactly once" and "in this order" are statements
  about that list.
\<close>

subsection \<open>Single-precision numbers\<close>

text \<open>
  A C++ \<open>float\<close> on the Android targets is an IEEE 754 binary32 number. A finite one is
  \<open>(-1)^s * m * 2^e\<close> with \<open>m < 2^24\<close> and \<open>-149 \<le> e \<le> 104\<close>, kept canonical:
  either \<open>e = -149\<close> (zero and the subnormal range) or \<open>2^23 \<le> m\<close>. The sign is
  \<open>True\<close> for a negative number. Every operation rounds its exact result to the nearest
  such number, ties to the even significand, each operation on its own.
\<close>

datatype f32 = Finite bool nat int | Infinity bool | NaN

definition f32_zero :: f32 where
  "f32_zero = Finite False 0 (- 149)"

definition f32_one :: f32 where
  "f32_one = Finite False (2 ^ 23) (- 23)"

function bit_length :: "nat \<Rightarrow> nat" where
  "bit_length n = (if n = 0 then 0 else Suc (bit_length (n div 2)))"
  by pat_completeness auto
termination
  by (relation "measure id") auto

declare bit_length.simps [simp del]

text \<open>
  \<open>round_f32 s m e sticky\<close> rounds the exact value \<open>(-1)^s * (m + t) * 2^e\<close>, where
  \<open>0 \<le> t < 1\<close> and \<open>t > 0\<close> exactly when \<open>sticky\<close> holds, to binary32. Division and
  square root call it with at least 26 significant bits in \<open>m\<close>, so that the bit that
  decides the rounding is always inside \<open>m\<close>.
\<close>

definition round_f32 :: "bool \<Rightarrow> nat \<Rightarrow> int \<Rightarrow> bool \<Rightarrow> f32" where
  "round_f32 s m e sticky =
     (if m = 0 then Finite s 0 (- 149)
      else
        let e' = max (e + int (bit_length m) - 24) (- 149)
        in if e' \<le> e
           then (if e' > 104 then Infinity s else Finite s (m * 2 ^ nat (e - e')) e')
           else
             let k = nat (e' - e);
                 q = m div 2 ^ k;
                 r = m mod 2 ^ k;
                 half = 2 ^ (k - 1);
                 up = (r > half \<or> (r = half \<and> (sticky \<or> odd q)));
                 q' = (if up then q + 1 else q);
                 e'' = (if q' = 2 ^ 24 then e' + 1 else e');
                 q'' = (if q' = 2 ^ 24 then 2 ^ 23 else q')
             in if e'' > 104 then Infinity s else Finite s q'' e'')"

fun f32_mul :: "f32 \<Rightarrow> f32 \<Rightarrow> f32" where
  "f32_mul NaN y = NaN"
| "f32_mul x NaN = NaN"
| "f32_mul (Infinity s) (Infinity t) = Infinity (s \<noteq> t)"
| "f32_mul (Infinity s) (Finite t n f) = (if n = 0 then NaN else Infinity (s \<noteq> t))"
| "f32_mul (Finite s m e) (Infinity t) = (if m = 0 then NaN else Infinity (s \<noteq> t))"
| "f32_mul (Finite s m e) (Finite t n f) = round_f32 (s \<noteq> t) (m * n) (e + f) False"

definition signed_significand :: "bool \<Rightarrow> nat \<Rightarrow> int" where
  "signed_significand s m = (if s then - int m else int m)"

fun f32_add :: "f32 \<Rightarrow> f32 \<Rightarrow> f32" where
  "f32_add NaN y = NaN"
| "f32_add x NaN = NaN"
| "f32_add (Infinity s) (Infinity t) = (if s = t then Infinity s else NaN)"
| "f32_add (Infinity s) (Finite t n f) = Infinity s"
| "f32_add (Finite s m e) (Infinity t) = Infinity t"
| "f32_add (Finite s m e) (Finite t n f) =
     (let g = min e f;
          c = signed_significand s m * 2 ^ nat (e - g) + signed_significand t n * 2 ^ nat (f - g)
      in if c = 0 then Finite (s \<and> t) 0 (- 149)
         else round_f32 (c < 0) (nat \<bar>c\<bar>) g False)"

fun f32_div :: "f32 \<Rightarrow> f32 \<Rightarrow> f32" where
  "f32_div NaN y = NaN"
| "f32_div x NaN = NaN"
| "f32_div (Infinity s) (Infinity t) = NaN"
| "f32_div (Infinity s) (Finite t n f) = Infinity (s \<noteq> t)"
| "f32_div (Finite s m e) (Infinity t) = Finite (s \<noteq> t) 0 (- 149)"
| "f32_div (Finite s m e) (Finite t n f) =
     (if n = 0 then (if m = 0 then NaN else Infinity (s \<noteq> t))
      else if m = 0 then Finite (s \<noteq> t) 0 (- 149)
      else round_f32 (s \<noteq> t) ((m * 2 ^ 50) div n) (e - f - 50) ((m * 2 ^ 50) mod n \<noteq> 0))"

text \<open>The integer square root, two bits of the argument at a time.\<close>

definition sqrt_step :: "nat \<Rightarrow> nat \<Rightarrow> nat" where
  "sqrt_step n r = (if (r + 1) * (r + 1) \<le> n then r + 1 else r)"

function floor_sqrt :: "nat \<Rightarrow> nat" where
  "floor_sqrt n = (if n < 2 then n else sqrt_step n (2 * floor_sqrt (n div 4)))"
  by pat_completeness auto
termination
  by (relation "measure id") auto

declare floor_sqrt.simps [simp del]

fun f32_sqrt :: "f32 \<Rightarrow> f32" where
  "f32_sqrt NaN = NaN"
| "f32_sqrt (Infinity s) = (if s then NaN else Infinity False)"
| "f32_sqrt (Finite s m e) =
     (if m = 0 then Finite s 0 (- 149)
      else if s then NaN
      else
        let b = e mod 2;
            big = m * 2 ^ nat b * 2 ^ 52;
            r = floor_sqrt big
        in round_f32 False r ((e - b) div 2 - 26) (r * r \<noteq> big))"

text \<open>The comparison \<open>x <= y\<close>: false as soon as one side is a NaN.\<close>

fun f32_le :: "f32 \<Rightarrow> f32 \<Rightarrow> bool" where
  "f32_le NaN y = False"
| "f32_le x NaN = False"
| "f32_le (Infinity s) (Infinity t) = (s \<or> \<not> t)"
| "f32_le (Infinity s) (Finite t n f) = s"
| "f32_le (Finite s m e) (Infinity t) = (\<not> t)"
| "f32_le (Finite s m e) (Finite t n f) =
     (let g = min e f
      in signed_significand s m * 2 ^ nat (e - g) \<le> signed_significand t n * 2 ^ nat (f - g))"

text \<open>The exact value of a finite number, and the numbers a literal denotes.\<close>

definition pow2 :: "int \<Rightarrow> rat" where
  "pow2 e = (if 0 \<le> e then 2 ^ nat e else 1 / 2 ^ nat (- e))"

fun f32_value :: "f32 \<Rightarrow> rat" where
  "f32_value (Finite s m e) = of_int (signed_significand s m) * pow2 e"
| "f32_value (Infinity s) = 0"
| "f32_value NaN = 0"

definition f32_of_nat :: "nat \<Rightarrow> f32" where
  "f32_of_nat n = round_f32 False n 0 False"

text \<open>\<open>f32_of_ratio p q\<close> is the binary32 number nearest to \<open>p / q\<close>: the literal
  \<open>0.6f\<close> is \<open>f32_of_ratio 3 5\<close>.\<close>

definition f32_of_ratio :: "nat \<Rightarrow> nat \<Rightarrow> f32" where
  "f32_of_ratio p q =
     (if p = 0 then f32_zero
      else round_f32 False ((p * 2 ^ 200) div q) (- 200) ((p * 2 ^ 200) mod q \<noteq> 0))"

definition is_zero_f32 :: "f32 \<Rightarrow> bool" where
  "is_zero_f32 x = (case x of Finite s m e \<Rightarrow> m = 0 | Infinity s \<Rightarrow> False | NaN \<Rightarrow> False)"

text \<open>The exact sum of the squares of the values of a vector.\<close>

fun exact_sum_squares :: "f32 list \<Rightarrow> rat" where
  "exact_sum_squares [] = 0"
| "exact_sum_squares (v # vs) = f32_value v * f32_value v + exact_sum_squares vs"

text \<open>
  The value of a number as a real, for error bounds. A number is ordinary when it is zero
  or a normal number of magnitude in \<open>[2^-50, 2^50)\<close>.
\<close>

definition f32_real :: "f32 \<Rightarrow> real" where
  "f32_real x =
     (case x of
        Finite s m e \<Rightarrow> real_of_int (signed_significand s m) * 2 powi e
      | Infinity s \<Rightarrow> 0
      | NaN \<Rightarrow> 0)"

definition ordinary :: "f32 \<Rightarrow> bool" where
  "ordinary x =
     (case x of
        Finite s m e \<Rightarrow> m = 0 \<or> (2 ^ 23 \<le> m \<and> m < 2 ^ 24 \<and> - 73 \<le> e \<and> e \<le> 26)
      | Infinity s \<Rightarrow> False
      | NaN \<Rightarrow> False)"

definition unit_roundoff :: real where
  "unit_roundoff = 1 / 2 ^ 24"

fun real_sum_squares :: "f32 list \<Rightarrow> real" where
  "real_sum_squares [] = 0"
| "real_sum_squares (v # vs) = f32_real v * f32_real v + real_sum_squares vs"

subsection \<open>normalize_l2\<close>

text \<open>
  The two range-for loops of \<open>normalize_l2\<close>: the first accumulates \<open>sum += v * v\<close>
  from \<open>0.0f\<close>, the second multiplies every element by \<open>inv\<close>. (The source's
  \<open>sum\<close> and \<open>inv\<close> are \<open>sum_sq\<close> and \<open>inv_norm\<close> here.)
\<close>

fun sum_squares :: "f32 list \<Rightarrow> f32 \<Rightarrow> f32" where
  "sum_squares [] sum_sq = sum_sq"
| "sum_squares (v # vs) sum_sq = sum_squares vs (f32_add sum_sq (f32_mul v v))"

fun scale_all :: "f32 list \<Rightarrow> f32 \<Rightarrow> f32 list" where
  "scale_all [] inv_norm = []"
| "scale_all (v # vs) inv_norm = f32_mul v inv_norm # scale_all vs inv_norm"

definition normalize_l2 :: "f32 list \<Rightarrow> f32 list" where
  "normalize_l2 values =
     (let sum_sq = sum_squares values f32_zero
      in if f32_le sum_sq f32_zero then values
         else let inv_norm = f32_div f32_one (f32_sqrt sum_sq)
              in scale_all values inv_norm)"

subsection \<open>The runtime, the native store and the events\<close>

text \<open>
  The llama.cpp functions the file calls, as a record of functions over three abstract
  types: \<open>'m\<close> a loaded model, \<open>'c\<close> the state of an inference context, \<open>'v\<close> a
  vocabulary. \<open>None\<close> is a null result. \<open>llama_tokenize\<close> takes the text, its length
  as \<open>int32_t\<close>, the capacity \<open>n_tokens_max\<close> and the two flags; it returns its
  count and the tokens it wrote to the buffer. \<open>llama_decode\<close> returns its result code
  and the new state of the context.
\<close>

type_synonym llama_token = int

record llama_batch =
  n_tokens :: int
  token :: "llama_token list"
  pos :: "int list"
  n_seq_id :: "int list"
  seq_id :: "int list list"
  logits :: "int list"

record ('m, 'c, 'v) llama_api =
  llama_model_load_from_file :: "string \<Rightarrow> 'm option"
  llama_init_from_model :: "'m \<Rightarrow> 'c option"
  llama_set_embeddings :: "'c \<Rightarrow> bool \<Rightarrow> 'c"
  llama_model_n_embd :: "'m \<Rightarrow> int"
  llama_n_ctx :: "'c \<Rightarrow> 32 word"
  llama_model_get_vocab :: "'m \<Rightarrow> 'v"
  llama_tokenize :: "'v \<Rightarrow> string \<Rightarrow> int \<Rightarrow> int \<Rightarrow> bool \<Rightarrow> bool \<Rightarrow> int \<times> llama_token list"
  llama_memory_clear :: "'c \<Rightarrow> 'c"
  llama_decode :: "'c \<Rightarrow> llama_batch \<Rightarrow> int \<times> 'c"
  llama_get_embeddings_seq :: "'c \<Rightarrow> int \<Rightarrow> f32 list option"

text \<open>The struct \<open>EmbeddingState\<close> (its mutex guards calls that run one after the
  other here, and is left out).\<close>

record EmbeddingState =
  model :: nat
  ctx :: nat
  n_embd :: int
  n_ctx :: "32 word"

datatype event =
    BackendInit
  | LogError string
  | NewState nat
  | DeleteState nat
  | ModelLoad string
  | ModelFree nat
  | ContextInit nat
  | ContextFree nat
  | MemoryClear nat
  | BatchInit nat
  | Decode nat int
  | BatchFree nat

text \<open>C++ exceptions and undefined behaviour end a call without a result.\<close>

datatype cpp_error = LengthError | InvalidPointer | OutOfBounds

record ('m, 'c) world =
  g_backend_ready :: bool
  heap_states :: "nat \<rightharpoonup> EmbeddingState"
  heap_models :: "nat \<rightharpoonup> 'm"
  heap_ctxs :: "nat \<rightharpoonup> 'c"
  next_ptr :: nat
  events :: "event list"

definition emit :: "event \<Rightarrow> ('m, 'c) world \<Rightarrow> ('m, 'c) world" where
  "emit ev w = w\<lparr>events := events w @ [ev]\<rparr>"

definition log_error :: "string \<Rightarrow> ('m, 'c) world \<Rightarrow> ('m, 'c) world" where
  "log_error message w = emit (LogError message) w"

definition ensure_backend :: "('m, 'c) world \<Rightarrow> ('m, 'c) world" where
  "ensure_backend w =
     (if g_backend_ready w then w
      else (emit BackendInit w)\<lparr>g_backend_ready := True\<rparr>)"

text \<open>A fresh address is never null and never one handed out before.\<close>

definition fresh_ptr :: "('m, 'c) world \<Rightarrow> nat" where
  "fresh_ptr w = next_ptr w + 1"

subsection \<open>tokenize\<close>

text \<open>
  \<open>int32_t\<close> values are integers; a conversion to \<open>int32_t\<close> wraps. A negative
  \<open>int32_t\<close> converted to \<open>size_t\<close> is beyond the \<open>max_size\<close> of a vector on every
  target, so constructing or resizing a vector to it throws \<open>std::length_error\<close>.
\<close>

definition to_int32 :: "int \<Rightarrow> int" where
  "to_int32 x = (x + 2 ^ 31) mod 2 ^ 32 - 2 ^ 31"

definition vector_of_size :: "int \<Rightarrow> cpp_error + llama_token list" where
  "vector_of_size n = (if n < 0 then Inl LengthError else Inr (replicate (nat n) 0))"

definition vector_resize :: "llama_token list \<Rightarrow> int \<Rightarrow> cpp_error + llama_token list" where
  "vector_resize xs n =
     (if n < 0 then Inl LengthError
      else Inr (take (nat n) xs @ replicate (nat n - length xs) 0))"

text \<open>What the buffer holds after the tokenizer wrote \<open>written\<close> to its start; nothing
  is written past the capacity.\<close>

definition write_buffer :: "llama_token list \<Rightarrow> llama_token list \<Rightarrow> llama_token list" where
  "write_buffer buf written = take (length buf) written @ drop (length written) buf"

definition clamp_count :: "int \<Rightarrow> int \<Rightarrow> int" where
  "clamp_count count max_tokens =
     (if count < 0
      then (let negated = to_int32 (- count)
            in if negated > max_tokens then max_tokens else negated)
      else count)"

definition tokenize ::
  "('m, 'c, 'v) llama_api \<Rightarrow> 'v \<Rightarrow> string \<Rightarrow> int \<Rightarrow> cpp_error + llama_token list" where
  "tokenize L vocab text max_tokens =
     (if text = [] then Inr []
      else
        case vector_of_size max_tokens of
          Inl e \<Rightarrow> Inl e
        | Inr tokens \<Rightarrow>
            (case llama_tokenize L vocab text (to_int32 (int (length text))) max_tokens True False of
               (count, written) \<Rightarrow>
                 vector_resize (write_buffer tokens written) (clamp_count count max_tokens)))"

subsection \<open>nativeInit\<close>

definition default_state :: EmbeddingState where
  "default_state = \<lparr>model = 0, ctx = 0, n_embd = 0, n_ctx = 0\<rparr>"

definition new_state :: "('m, 'c) world \<Rightarrow> nat \<times> ('m, 'c) world" where
  "new_state w =
     (let p = fresh_ptr w
      in (p, (emit (NewState p) w)\<lparr>heap_states := (heap_states w)(p \<mapsto> default_state),
                                    next_ptr := p\<rparr>))"

definition delete_state :: "nat \<Rightarrow> ('m, 'c) world \<Rightarrow> ('m, 'c) world" where
  "delete_state p w = (emit (DeleteState p) w)\<lparr>heap_states := (heap_states w)(p := None)\<rparr>"

definition llama_model_free :: "nat \<Rightarrow> ('m, 'c) world \<Rightarrow> ('m, 'c) world" where
  "llama_model_free p w = (emit (ModelFree p) w)\<lparr>heap_models := (heap_models w)(p := None)\<rparr>"

definition llama_free :: "nat \<Rightarrow> ('m, 'c) world \<Rightarrow> ('m, 'c) world" where
  "llama_free p w = (emit (ContextFree p) w)\<lparr>heap_ctxs := (heap_ctxs w)(p := None)\<rparr>"

definition store_model :: "'m \<Rightarrow> ('m, 'c) world \<Rightarrow> nat \<times> ('m, 'c) world" where
  "store_model m w =
     (let p = fresh_ptr w
      in (p, w\<lparr>heap_models := (heap_models w)(p \<mapsto> m), next_ptr := p\<rparr>))"

definition store_ctx :: "'c \<Rightarrow> ('m, 'c) world \<Rightarrow> nat \<times> ('m, 'c) world" where
  "store_ctx c w =
     (let p = fresh_ptr w
      in (p, (emit (ContextInit p) w)\<lparr>heap_ctxs := (heap_ctxs w)(p \<mapsto> c), next_ptr := p\<rparr>))"

definition update_state ::
  "nat \<Rightarrow> (EmbeddingState \<Rightarrow> EmbeddingState) \<Rightarrow> ('m, 'c) world \<Rightarrow> ('m, 'c) world" where
  "update_state p f w =
     (case heap_states w p of
        None \<Rightarrow> w
      | Some st \<Rightarrow> w\<lparr>heap_states := (heap_states w)(p \<mapsto> f st)\<rparr>)"

text \<open>
  \<open>model_path\<close> is what \<open>GetStringUTFChars\<close> returns: \<open>None\<close> for a null pointer.
  The result is the \<open>jlong\<close> handle, \<open>0\<close> on failure, and the new store.
\<close>

definition nativeInit ::
  "('m, 'c, 'v) llama_api \<Rightarrow> ('m, 'c) world \<Rightarrow> string option \<Rightarrow> nat \<times> ('m, 'c) world" where
  "nativeInit L w0 model_path =
     (let w1 = ensure_backend w0
      in case model_path of
           None \<Rightarrow> (0, log_error ''Model path is null'' w1)
         | Some model_path_str \<Rightarrow>
             (case new_state w1 of
                (state, w2) \<Rightarrow>
                  (case llama_model_load_from_file L model_path_str of
                     None \<Rightarrow>
                       (0, delete_state state
                             (log_error ''Failed to load model'' (emit (ModelLoad model_path_str) w2)))
                   | Some m \<Rightarrow>
                       (case store_model m (emit (ModelLoad model_path_str) w2) of
                          (mp, w3) \<Rightarrow>
                            (let w4 = update_state state (\<lambda>st. st\<lparr>model := mp\<rparr>) w3
                             in case llama_init_from_model L m of
                                  None \<Rightarrow>
                                    (0, delete_state state
                                          (llama_model_free mp
                                             (log_error ''Failed to init context'' w4)))
                                | Some c \<Rightarrow>
                                    (case store_ctx (llama_set_embeddings L c True) w4 of
                                       (cp, w5) \<Rightarrow>
                                         (state,
                                          update_state state
                                            (\<lambda>st. st\<lparr>ctx := cp,
                                                       n_embd := llama_model_n_embd L m,
                                                       n_ctx := llama_n_ctx L (llama_set_embeddings L c True)\<rparr>)
                                            w5)))))))"

subsection \<open>nativeEmbed\<close>

text \<open>
  The defensive truncation of lines 171 to 173: the size is compared as \<open>uint32_t\<close>.
\<close>

definition needs_truncation :: "llama_token list \<Rightarrow> 32 word \<Rightarrow> bool" where
  "needs_truncation tokens n = ((of_nat (length tokens) :: 32 word) > n)"

definition truncate_tokens :: "llama_token list \<Rightarrow> 32 word \<Rightarrow> llama_token list" where
  "truncate_tokens tokens n = (if needs_truncation tokens n then take (unat n) tokens else tokens)"

definition llama_batch_init :: "int \<Rightarrow> int \<Rightarrow> int \<Rightarrow> llama_batch" where
  "llama_batch_init n_tokens_alloc embd n_seq_max =
     \<lparr>n_tokens = 0,
      token = replicate (nat n_tokens_alloc) 0,
      pos = replicate (nat n_tokens_alloc) 0,
      n_seq_id = replicate (nat n_tokens_alloc) 0,
      seq_id = replicate (nat n_tokens_alloc) (replicate (nat n_seq_max) 0),
      logits = replicate (nat n_tokens_alloc) 0\<rparr>"

text \<open>The loop that fills the batch, one token for each index from \<open>i\<close> on.\<close>

fun fill_batch :: "llama_token list \<Rightarrow> nat \<Rightarrow> llama_batch \<Rightarrow> llama_batch" where
  "fill_batch [] i batch = batch"
| "fill_batch (t # ts) i batch =
     fill_batch ts (Suc i)
       (batch\<lparr>token := (token batch)[i := t],
              pos := (pos batch)[i := int i],
              n_seq_id := (n_seq_id batch)[i := 1],
              seq_id := (seq_id batch)[i := (seq_id batch ! i)[0 := 0]],
              logits := (logits batch)[i := 1]\<rparr>)"

definition build_batch :: "llama_token list \<Rightarrow> llama_batch" where
  "build_batch tokens =
     (let n = to_int32 (int (length tokens))
      in fill_batch (take (nat n) tokens) 0 ((llama_batch_init n 0 1)\<lparr>n_tokens := n\<rparr>))"

text \<open>Lines 201 to 204: a vector of \<open>n_embd\<close> floats, filled from \<open>embd[0 .. n_embd)\<close>;
  reading past the end of the runtime's buffer is undefined.\<close>

definition copy_embedding :: "int \<Rightarrow> f32 list \<Rightarrow> cpp_error + f32 list" where
  "copy_embedding n embd =
     (if n < 0 then Inl LengthError
      else if length embd < nat n then Inl OutOfBounds
      else Inr (take (nat n) embd))"

text \<open>
  Lines 175 to 213, from the memory clear to the result. \<open>new_array_ok\<close> says whether
  \<open>NewFloatArray\<close> returns an array. The result is the array (\<open>None\<close> for
  \<open>nullptr\<close>) and the new store.
\<close>

definition embed_tokens ::
  "('m, 'c, 'v) llama_api \<Rightarrow> bool \<Rightarrow> ('m, 'c) world \<Rightarrow> EmbeddingState \<Rightarrow> 'c \<Rightarrow> llama_token list
     \<Rightarrow> cpp_error + (f32 list option \<times> ('m, 'c) world)" where
  "embed_tokens L new_array_ok w state c tokens =
     (let w1 = emit (MemoryClear (ctx state)) w;
          batch = build_batch tokens;
          w2 = emit (BatchInit (length tokens)) w1
      in case llama_decode L (llama_memory_clear L c) batch of
           (decode_result, c2) \<Rightarrow>
             (let w3 = (emit (Decode (ctx state) decode_result) w2)
                         \<lparr>heap_ctxs := (heap_ctxs w2)(ctx state \<mapsto> c2)\<rparr>;
                  w4 = emit (BatchFree (length tokens)) w3
              in if decode_result \<noteq> 0 then Inr (None, log_error ''llama_decode failed'' w4)
                 else
                   case llama_get_embeddings_seq L c2 0 of
                     None \<Rightarrow> Inr (None, log_error ''Failed to get embeddings'' w4)
                   | Some embd \<Rightarrow>
                       (case copy_embedding (n_embd state) embd of
                          Inl e \<Rightarrow> Inl e
                        | Inr output \<Rightarrow>
                            if new_array_ok then Inr (Some (normalize_l2 output), w4)
                            else Inr (None, log_error ''Failed to allocate float array'' w4))))"

text \<open>Lines 145 to 173. \<open>text\<close> is what \<open>GetStringUTFChars\<close> returns. A handle that
  is neither null nor a live \<open>EmbeddingState\<close> is a wild pointer.\<close>

definition nativeEmbed ::
  "('m, 'c, 'v) llama_api \<Rightarrow> bool \<Rightarrow> ('m, 'c) world \<Rightarrow> nat \<Rightarrow> string option
     \<Rightarrow> cpp_error + (f32 list option \<times> ('m, 'c) world)" where
  "nativeEmbed L new_array_ok w handle text =
     (if handle = 0 then Inr (None, log_error ''Embedding handle is null'' w)
      else
        case heap_states w handle of
          None \<Rightarrow> Inl InvalidPointer
        | Some state \<Rightarrow>
            if ctx state = 0 \<or> model state = 0
            then Inr (None, log_error ''Embedding state is invalid'' w)
            else
              case text of
                None \<Rightarrow> Inr (None, log_error ''Embedding text is null'' w)
              | Some text_str \<Rightarrow>
                  (case heap_models w (model state) of
                     None \<Rightarrow> Inl InvalidPointer
                   | Some m \<Rightarrow>
                       (case tokenize L (llama_model_get_vocab L m) text_str (sint (n_ctx state)) of
                          Inl e \<Rightarrow> Inl e
                        | Inr tokens \<Rightarrow>
                            if tokens = []
                            then Inr (None, log_error ''Tokenization produced empty tokens'' w)
                            else
                              (case heap_ctxs w (ctx state) of
                                 None \<Rightarrow> Inl InvalidPointer
                               | Some c \<Rightarrow>
                                   embed_tokens L new_array_ok w state c
                                     (truncate_tokens tokens (n_ctx state))))))"

subsection \<open>nativeRelease\<close>

definition nativeRelease :: "('m, 'c) world \<Rightarrow> nat \<Rightarrow> cpp_error + ('m, 'c) world" where
  "nativeRelease w handle =
     (if handle = 0 then Inr w
      else
        case heap_states w handle of
          None \<Rightarrow> Inl InvalidPointer
        | Some state \<Rightarrow>
            (let w1 = (if ctx state \<noteq> 0
                       then update_state handle (\<lambda>st. st\<lparr>ctx := 0\<rparr>) (llama_free (ctx state) w)
                       else w);
                 w2 = (if model state \<noteq> 0
                       then update_state handle (\<lambda>st. st\<lparr>model := 0\<rparr>)
                              (llama_model_free (model state) w1)
                       else w1)
             in Inr (delete_state handle w2)))"

subsection \<open>Notions the statements use\<close>

text \<open>The events a call appended to the store.\<close>

definition new_events :: "('m, 'c) world \<Rightarrow> ('m, 'c) world \<Rightarrow> event list" where
  "new_events w w' = drop (length (events w)) (events w')"

definition is_batch_init :: "event \<Rightarrow> bool" where
  "is_batch_init ev = (case ev of BatchInit n \<Rightarrow> True | _ \<Rightarrow> False)"

definition is_batch_free :: "event \<Rightarrow> bool" where
  "is_batch_free ev = (case ev of BatchFree n \<Rightarrow> True | _ \<Rightarrow> False)"

text \<open>The events of a list that allocate or release a decode batch.\<close>

definition batch_events :: "event list \<Rightarrow> event list" where
  "batch_events evs = filter (\<lambda>ev. is_batch_init ev \<or> is_batch_free ev) evs"



text \<open>An empty store, before any call.\<close>

definition empty_world :: "('m, 'c) world" where
  "empty_world =
     \<lparr>g_backend_ready = False, heap_states = Map.empty, heap_models = Map.empty,
      heap_ctxs = Map.empty, next_ptr = 0, events = []\<rparr>"

text \<open>
  The store is well formed when every address above \<open>next_ptr\<close> is free: the
  allocator has not handed it out yet.
\<close>

definition wf_world :: "('m, 'c) world \<Rightarrow> bool" where
  "wf_world w =
     (\<forall>p. next_ptr w < p \<longrightarrow>
          heap_states w p = None \<and> heap_models w p = None \<and> heap_ctxs w p = None)"

subsection \<open>A small runtime to run the code on\<close>

text \<open>
  A runtime for concrete runs. A model is its embedding width; a context is the list of
  tokens in its sequence memory and the pooled output of the last successful decode. The
  tokenizer gives token \<open>1\<close> for an exclamation mark and \<open>2\<close> for any other byte, and
  reports overflow by the negated count without writing anything. Decoding appends the
  batch to the memory, fails on token \<open>1\<close>, and otherwise pools \<open>emb\<close> of the
  number of tokens in memory.
\<close>

type_synonym demo_ctx = "llama_token list \<times> f32 list option"

definition demo_tokenize ::
  "unit \<Rightarrow> string \<Rightarrow> int \<Rightarrow> int \<Rightarrow> bool \<Rightarrow> bool \<Rightarrow> int \<times> llama_token list" where
  "demo_tokenize v text text_len n_max add_special parse_special =
     (if n_max < int (length text) then (- int (length text), [])
      else (int (length text), map (\<lambda>ch. if ch = CHR ''!'' then 1 else 2) text))"

definition demo_decode :: "(int \<Rightarrow> f32 list) \<Rightarrow> demo_ctx \<Rightarrow> llama_batch \<Rightarrow> int \<times> demo_ctx" where
  "demo_decode emb c batch =
     (if 1 \<in> set (token batch) then (1, (fst c @ token batch, snd c))
      else (0, (fst c @ token batch, Some (emb (int (length (fst c @ token batch)))))))"

definition demo_api ::
  "(string \<Rightarrow> bool) \<Rightarrow> (int \<Rightarrow> f32 list) \<Rightarrow> (nat, demo_ctx, unit) llama_api" where
  "demo_api loadable emb =
     \<lparr>llama_model_load_from_file = (\<lambda>path. if loadable path then Some 2 else None),
      llama_init_from_model = (\<lambda>m. Some ([], None)),
      llama_set_embeddings = (\<lambda>c b. c),
      llama_model_n_embd = (\<lambda>m. int m),
      llama_n_ctx = (\<lambda>c. 4),
      llama_model_get_vocab = (\<lambda>m. ()),
      llama_tokenize = demo_tokenize,
      llama_memory_clear = (\<lambda>c. ([], snd c)),
      llama_decode = demo_decode emb,
      llama_get_embeddings_seq = (\<lambda>c seq. if seq = 0 then snd c else None)\<rparr>"

definition counting_emb :: "int \<Rightarrow> f32 list" where
  "counting_emb k = [f32_of_nat (nat k), f32_of_nat (nat (k + 1))]"

definition tiny_emb :: "int \<Rightarrow> f32 list" where
  "tiny_emb k = [Finite False (2 ^ 23) (- 123), f32_zero]"

definition huge_emb :: "int \<Rightarrow> f32 list" where
  "huge_emb k = [Finite False (2 ^ 23) 77, f32_zero]"

definition big_emb :: "int \<Rightarrow> f32 list" where
  "big_emb k = [Finite False (3 * 2 ^ 22) 40, Finite False (3 * 2 ^ 22) 40]"

definition gguf_only :: "string \<Rightarrow> bool" where
  "gguf_only path = (path = ''model.gguf'')"

definition any_path :: "string \<Rightarrow> bool" where
  "any_path path = True"

text \<open>The store after one successful \<open>nativeInit\<close> from the empty store; its handle
  is \<open>1\<close>, its model is at \<open>2\<close> and its context at \<open>3\<close>.\<close>

definition demo_world :: "(nat, demo_ctx) world" where
  "demo_world =
     \<lparr>g_backend_ready = True,
      heap_states = [1 \<mapsto> \<lparr>model = 2, ctx = 3, n_embd = 2, n_ctx = 4\<rparr>],
      heap_models = [2 \<mapsto> 2],
      heap_ctxs = [3 \<mapsto> ([], None)],
      next_ptr = 3,
      events = [BackendInit, NewState 1, ModelLoad ''model.gguf'', ContextInit 3]\<rparr>"

section \<open>Evaluation rules\<close>

text \<open>Rules that let the simplifier run the definitions on numerals.\<close>

lemma bit_length_0 [simp]: "bit_length 0 = 0"
  by (simp add: bit_length.simps)
lemma bit_length_1 [simp]: "bit_length 1 = 1" "bit_length (Suc 0) = 1"
  by (simp_all add: bit_length.simps [of 1] bit_length.simps [of "Suc 0"])
lemma bit_length_numeral [simp]:
  "bit_length (numeral k) = Suc (bit_length (numeral k div 2))"
  by (subst bit_length.simps) simp
lemma floor_sqrt_0 [simp]: "floor_sqrt 0 = 0" "floor_sqrt 1 = 1" "floor_sqrt (Suc 0) = Suc 0"
  by (simp_all add: floor_sqrt.simps [of 0] floor_sqrt.simps [of 1] floor_sqrt.simps [of "Suc 0"])
lemma floor_sqrt_numeral [simp]:
  "floor_sqrt (numeral k) =
     (if numeral k < (2::nat) then numeral k
      else sqrt_step (numeral k) (2 * floor_sqrt (numeral k div 4)))"
  by (rule floor_sqrt.simps)
lemmas f32_eval = round_f32_def f32_of_nat_def f32_of_ratio_def sqrt_step_def f32_zero_def
  f32_one_def signed_significand_def
lemmas world_eval = nativeInit_def ensure_backend_def emit_def log_error_def new_state_def
  fresh_ptr_def delete_state_def store_model_def store_ctx_def update_state_def
  llama_model_free_def llama_free_def default_state_def empty_world_def demo_api_def Let_def

lemma demo_world_init:
  "nativeInit (demo_api gguf_only emb) empty_world (Some ''model.gguf'') = (1, demo_world)"
  by (simp add: world_eval demo_world_def gguf_only_def numeral_2_eq_2 numeral_3_eq_3)

lemma replicate_numeral_Cons:
  "replicate (numeral k) x = x # replicate (pred_numeral k) x"
  by (simp add: numeral_eq_Suc)

lemmas embed_eval = replicate_numeral_Cons nativeEmbed_def embed_tokens_def tokenize_def vector_of_size_def
  vector_resize_def write_buffer_def clamp_count_def to_int32_def needs_truncation_def
  truncate_tokens_def build_batch_def llama_batch_init_def copy_embedding_def
  demo_tokenize_def demo_decode_def demo_api_def demo_world_def emit_def log_error_def
  new_events_def Let_def


section \<open>The arithmetic model against known values\<close>

text \<open>
  The integer square root is the floor of the square root, and the operations give the
  bit patterns every IEEE 754 implementation gives: \<open>0.1f\<close>, \<open>1.0f / 3.0f\<close>,
  \<open>sqrt(2.0f)\<close>, ties to even at \<open>2^24 + 1\<close> and \<open>2^24 + 3\<close>, overflow to
  infinity, and rounding in the subnormal range.
\<close>

lemma floor_sqrt_correct:
  "floor_sqrt n * floor_sqrt n \<le> n \<and> n < (floor_sqrt n + 1) * (floor_sqrt n + 1)"
proof (induction n rule: floor_sqrt.induct)
  case (1 n)
  show ?case
  proof (cases "n < 2")
    case True
    then have "n = 0 \<or> n = 1" by auto
    then show ?thesis by (auto simp: floor_sqrt.simps [of 0] floor_sqrt.simps [of 1])
  next
    case False
    define r0 where "r0 = floor_sqrt (n div 4)"
    have ih: "r0 * r0 \<le> n div 4" "n div 4 < (r0 + 1) * (r0 + 1)"
      using 1 False by (simp_all add: r0_def)
    have lo: "(2 * r0) * (2 * r0) \<le> n"
    proof -
      have "(2 * r0) * (2 * r0) = 4 * (r0 * r0)" by simp
      also have "\<dots> \<le> 4 * (n div 4)" using ih(1) by simp
      also have "\<dots> \<le> n" by simp
      finally show ?thesis .
    qed
    have hi: "n < (2 * r0 + 2) * (2 * r0 + 2)"
    proof -
      have "n div 4 + 1 \<le> (r0 + 1) * (r0 + 1)" using ih(2) by simp
      then have "4 * (n div 4 + 1) \<le> 4 * ((r0 + 1) * (r0 + 1))" by simp
      moreover have "n < 4 * (n div 4 + 1)" by simp
      moreover have "4 * ((r0 + 1) * (r0 + 1)) = (2 * r0 + 2) * (2 * r0 + 2)"
        by (simp add: algebra_simps)
      ultimately show ?thesis by linarith
    qed
    have eq: "floor_sqrt n = sqrt_step n (2 * r0)"
      using False by (simp add: floor_sqrt.simps [of n] r0_def)
    show ?thesis
    proof (cases "(2 * r0 + 1) * (2 * r0 + 1) \<le> n")
      case True
      then have "floor_sqrt n = 2 * r0 + 1" by (simp add: eq sqrt_step_def)
      then show ?thesis using True hi by (simp add: algebra_simps)
    next
      case False
      then have "floor_sqrt n = 2 * r0" by (simp add: eq sqrt_step_def)
      then show ?thesis using False lo by simp
    qed
  qed
qed

lemma binary32_known_values:
  "f32_div f32_one (f32_of_nat 10) = Finite False 13421773 (- 27)"
  "f32_div f32_one (f32_of_nat 3) = Finite False 11184811 (- 25)"
  "f32_sqrt (f32_of_nat 2) = Finite False 11863283 (- 23)"
  "f32_of_nat 16777217 = Finite False 8388608 1"
  "f32_of_nat 16777219 = Finite False 8388610 1"
  "f32_add (Finite False (2 ^ 24 - 1) 104) (Finite False (2 ^ 24 - 1) 104) = Infinity False"
  "f32_mul (Finite False 1 (- 149)) (Finite False (2 ^ 23) (- 24)) = Finite False 0 (- 149)"
  "f32_mul (Finite False 3 (- 149)) (Finite False (2 ^ 23) (- 24)) = Finite False 2 (- 149)"
  by (simp_all add: f32_eval)

section \<open>The tokenizer adapter\<close>

lemma to_int32_id: "- (2 ^ 31) \<le> x \<Longrightarrow> x < 2 ^ 31 \<Longrightarrow> to_int32 x = x"
  by (simp add: to_int32_def)

lemma length_write_buffer: "length (write_buffer buf written) = length buf"
  by (simp add: write_buffer_def)

lemma clamp_count_negative:
  assumes "- (2 ^ 31) < count" and "count < 0"
  shows "clamp_count count max_tokens = min (- count) max_tokens"
proof -
  have "to_int32 (- count) = - count"
    using assms by (intro to_int32_id) simp_all
  then show ?thesis
    using assms by (simp add: clamp_count_def Let_def min_def)
qed

lemma clamp_count_le:
  assumes "0 \<le> count \<longrightarrow> count \<le> max_tokens"
  shows "clamp_count count max_tokens \<le> max_tokens"
  using assms by (simp add: clamp_count_def Let_def)

lemma tokenize_nonempty:
  assumes "text \<noteq> []" and "0 \<le> max_tokens"
    and "llama_tokenize L vocab text (to_int32 (int (length text))) max_tokens True False
           = (count, written)"
  shows "tokenize L vocab text max_tokens
           = vector_resize (write_buffer (replicate (nat max_tokens) 0) written)
               (clamp_count count max_tokens)"
  using assms by (simp add: tokenize_def vector_of_size_def)

lemma vector_resize_shrink:
  assumes "0 \<le> n" and "nat n \<le> length xs"
  shows "vector_resize xs n = Inr (take (nat n) xs)"
  using assms by (simp add: vector_resize_def)

lemma tokenize_length_le:
  assumes call: "llama_tokenize L vocab text (to_int32 (int (length text))) max_tokens True False
                   = (count, written)"
    and fits: "0 \<le> count \<longrightarrow> count \<le> max_tokens"
    and res: "tokenize L vocab text max_tokens = Inr tokens"
  shows "tokens = [] \<or> (0 \<le> max_tokens \<and> int (length tokens) \<le> max_tokens)"
proof (cases "text = []")
  case True
  then show ?thesis using res by (simp add: tokenize_def)
next
  case False
  have cap: "0 \<le> max_tokens"
    using res False by (simp add: tokenize_def vector_of_size_def split: if_splits)
  let ?buf = "write_buffer (replicate (nat max_tokens) 0) written"
  let ?n = "clamp_count count max_tokens"
  have r: "vector_resize ?buf ?n = Inr tokens"
    using tokenize_nonempty [OF False cap call] res by simp
  then have n0: "0 \<le> ?n"
    by (simp add: vector_resize_def split: if_splits)
  have le: "?n \<le> max_tokens" using fits by (rule clamp_count_le)
  have "nat ?n \<le> length ?buf"
    using le n0 by (simp add: length_write_buffer)
  then have "tokens = take (nat ?n) ?buf"
    using vector_resize_shrink [OF n0] r by simp
  then have "int (length tokens) \<le> max_tokens"
    using le n0 by (simp add: length_write_buffer)
  then show ?thesis using cap by simp
qed

text \<open>
  C4. \<open>tokenize\<close> on the empty text returns the empty sequence, whatever
  \<open>max_tokens\<close> is. On any other text and a capacity \<open>max_tokens \<ge> 0\<close>, a negative
  count of the tokenizer (other than \<open>INT32_MIN\<close>, whose negation is not an
  \<open>int32_t\<close>) is negated, clamped to \<open>max_tokens\<close>, and the buffer is cut to that
  many tokens. When the tokenizer keeps its contract on the call (a count that is not
  negative is at most \<open>max_tokens\<close>), whatever \<open>tokenize\<close> returns is empty or has
  at most \<open>max_tokens\<close> tokens; and for \<open>max_tokens \<ge> 0\<close> it does return, with at
  most \<open>max_tokens\<close> tokens.
\<close>

theorem tokenize_truncates_within_capacity:
  assumes call: "llama_tokenize L vocab text (to_int32 (int (length text))) max_tokens True False
                 = (count, written)"
  shows "tokenize L vocab [] max_tokens = Inr []
       \<and> (text \<noteq> [] \<and> 0 \<le> max_tokens \<and> - (2 ^ 31) < count \<and> count < 0 \<longrightarrow>
            (\<exists>tokens. tokenize L vocab text max_tokens = Inr tokens
               \<and> int (length tokens) = min (- count) max_tokens
               \<and> tokens = take (nat (min (- count) max_tokens))
                            (write_buffer (replicate (nat max_tokens) 0) written)))
       \<and> ((0 \<le> count \<longrightarrow> count \<le> max_tokens) \<longrightarrow>
            (\<forall>tokens. tokenize L vocab text max_tokens = Inr tokens \<longrightarrow>
               tokens = [] \<or> int (length tokens) \<le> max_tokens))
       \<and> (0 \<le> max_tokens \<and> - (2 ^ 31) < count \<and> (0 \<le> count \<longrightarrow> count \<le> max_tokens) \<longrightarrow>
            (\<exists>tokens. tokenize L vocab text max_tokens = Inr tokens
               \<and> int (length tokens) \<le> max_tokens))"
proof (intro conjI impI allI)
  show "tokenize L vocab [] max_tokens = Inr []"
    by (simp add: tokenize_def)
next
  assume neg: "text \<noteq> [] \<and> 0 \<le> max_tokens \<and> - (2 ^ 31) < count \<and> count < 0"
  then have cap: "0 \<le> max_tokens" and not_min: "- (2 ^ 31) < count" by simp_all
  let ?buf = "write_buffer (replicate (nat max_tokens) 0) written"
  let ?n = "min (- count) max_tokens"
  have c: "clamp_count count max_tokens = ?n"
    using not_min neg by (simp add: clamp_count_negative)
  have n0: "0 \<le> ?n" using neg cap by simp
  have fit: "nat ?n \<le> length ?buf"
    using cap by (simp add: length_write_buffer)
  have "tokenize L vocab text max_tokens = Inr (take (nat ?n) ?buf)"
    using tokenize_nonempty [OF _ cap call] neg c vector_resize_shrink [OF n0 fit] by simp
  moreover have "int (length (take (nat ?n) ?buf)) = ?n"
    using n0 fit by simp
  ultimately show "\<exists>tokens. tokenize L vocab text max_tokens = Inr tokens
      \<and> int (length tokens) = ?n \<and> tokens = take (nat ?n) ?buf"
    by blast
next
  fix tokens
  assume fits: "0 \<le> count \<longrightarrow> count \<le> max_tokens"
    and res: "tokenize L vocab text max_tokens = Inr tokens"
  show "tokens = [] \<or> int (length tokens) \<le> max_tokens"
    using tokenize_length_le [OF call fits res] by blast
next
  assume h: "0 \<le> max_tokens \<and> - (2 ^ 31) < count \<and> (0 \<le> count \<longrightarrow> count \<le> max_tokens)"
  then have cap: "0 \<le> max_tokens" and not_min: "- (2 ^ 31) < count"
    and fits: "0 \<le> count \<longrightarrow> count \<le> max_tokens" by simp_all
  show "\<exists>tokens. tokenize L vocab text max_tokens = Inr tokens
          \<and> int (length tokens) \<le> max_tokens"
  proof (cases "text = []")
    case True
    then show ?thesis using cap by (simp add: tokenize_def)
  next
    case False
    let ?buf = "write_buffer (replicate (nat max_tokens) 0) written"
    let ?n = "clamp_count count max_tokens"
    have le: "?n \<le> max_tokens" using fits by (rule clamp_count_le)
    have n0: "0 \<le> ?n"
    proof (cases "count < 0")
      case True
      then show ?thesis using clamp_count_negative [OF not_min True] cap by simp
    next
      case False
      then show ?thesis by (simp add: clamp_count_def)
    qed
    have fit: "nat ?n \<le> length ?buf"
      using le n0 by (simp add: length_write_buffer)
    have "tokenize L vocab text max_tokens = Inr (take (nat ?n) ?buf)"
      using tokenize_nonempty [OF False cap call] vector_resize_shrink [OF n0 fit] by simp
    moreover have "int (length (take (nat ?n) ?buf)) \<le> max_tokens"
      using le n0 fit by simp
    ultimately show ?thesis by blast
  qed
qed

theorem tokenize_truncates_within_capacity_witness:
  "tokenize (demo_api gguf_only counting_emb) () [] 2 = Inr []
   \<and> tokenize (demo_api gguf_only counting_emb) () ''abc'' 2 = Inr [0, 0]
   \<and> tokenize (demo_api gguf_only counting_emb) () ''a!'' 2 = Inr [2, 1]"
proof -
  have call: "llama_tokenize (demo_api gguf_only counting_emb) () ''abc''
                (to_int32 (int (length ''abc''))) 2 True False = (- 3, [])"
    by (simp add: demo_api_def demo_tokenize_def)
  have "tokenize (demo_api gguf_only counting_emb) () ''abc'' 2 = Inr [0, 0]"
    using tokenize_truncates_within_capacity [OF call]
    by (simp add: write_buffer_def replicate_numeral_Cons)
  moreover have "tokenize (demo_api gguf_only counting_emb) () [] 2 = Inr []"
    using tokenize_truncates_within_capacity [OF call] by simp
  moreover have "tokenize (demo_api gguf_only counting_emb) () ''a!'' 2 = Inr [2, 1]"
    by (simp add: embed_eval)
  ultimately show ?thesis by simp
qed

lemma sint_nonneg_uint:
  fixes n :: "32 word"
  assumes "0 \<le> sint n"
  shows "sint n = uint n"
proof (cases "uint n < 2 ^ 31")
  case True
  have "- (2 ^ 31) \<le> uint n"
    by (rule order_trans [of _ 0]) simp_all
  then have "signed_take_bit 31 (uint n) = uint n"
    using True by (rule signed_take_bit_int_eq_self)
  then show ?thesis
    by (simp add: sint_uint)
next
  case False
  then have "signed_take_bit 31 (uint n) \<le> uint n - 4294967296"
    using signed_take_bit_int_less_eq [of 31 "uint n"] by simp
  moreover have "uint n < 4294967296"
    using uint_bounded [of n] by simp
  moreover have "sint n = signed_take_bit 31 (uint n)"
    by (simp add: sint_uint)
  ultimately have "sint n < 0"
    by linarith
  then show ?thesis using assms by linarith
qed

lemma no_truncation_when_short:
  fixes n :: "32 word"
  assumes "0 \<le> sint n" and "int (length tokens) \<le> sint n"
  shows "\<not> needs_truncation tokens n"
proof -
  have un: "sint n = uint n"
    using assms(1) by (rule sint_nonneg_uint)
  have "int (unat n) = uint n"
    by simp
  then have "length tokens \<le> unat n"
    using assms(2) un by linarith
  then have "unat (of_nat (length tokens) :: 32 word) = length tokens"
    by (rule le_unat_uoi)
  then have "(of_nat (length tokens) :: 32 word) \<le> n"
    using \<open>length tokens \<le> unat n\<close> by (simp add: word_le_nat_alt)
  then show ?thesis
    by (simp add: needs_truncation_def not_less)
qed

text \<open>
  C10. In \<open>nativeEmbed\<close> the tokens come from \<open>tokenize\<close> called with
  \<open>max_tokens = static_cast<int32_t>(n_ctx)\<close>. When the tokenizer keeps its contract
  on that call (a non-negative count is at most the capacity), the condition of the
  defensive branch, \<open>static_cast<uint32_t>(tokens.size()) > n_ctx\<close>, is false for every
  text and every \<open>n_ctx\<close>, and the tokens pass through unchanged.
\<close>

theorem defensive_truncation_never_taken:
  fixes n :: "32 word"
  assumes call: "llama_tokenize L vocab text (to_int32 (int (length text))) (sint n) True False
                   = (count, written)"
    and fits: "0 \<le> count \<longrightarrow> count \<le> sint n"
    and res: "tokenize L vocab text (sint n) = Inr tokens"
  shows "\<not> needs_truncation tokens n \<and> truncate_tokens tokens n = tokens"
proof -
  have "\<not> needs_truncation tokens n"
    using tokenize_length_le [OF call fits res]
  proof
    assume "tokens = []"
    then show ?thesis by (simp add: needs_truncation_def not_less)
  next
    assume "0 \<le> sint n \<and> int (length tokens) \<le> sint n"
    then show ?thesis by (simp add: no_truncation_when_short)
  qed
  then show ?thesis by (simp add: truncate_tokens_def)
qed

theorem defensive_truncation_never_taken_witness:
  "tokenize (demo_api gguf_only counting_emb) () ''abcdef'' (sint (4 :: 32 word))
     = Inr [0, 0, 0, 0]
   \<and> \<not> needs_truncation [0, 0, 0, 0] (4 :: 32 word)
   \<and> truncate_tokens [0, 0, 0, 0] (4 :: 32 word) = [0, 0, 0, 0]"
proof -
  have call: "llama_tokenize (demo_api gguf_only counting_emb) () ''abcdef''
                (to_int32 (int (length ''abcdef''))) (sint (4 :: 32 word)) True False = (- 6, [])"
    by (simp add: demo_api_def demo_tokenize_def)
  have res: "tokenize (demo_api gguf_only counting_emb) () ''abcdef'' (sint (4 :: 32 word))
               = Inr [0, 0, 0, 0]"
    by (simp add: embed_eval)
  show ?thesis
    using defensive_truncation_never_taken [OF call _ res] res by simp
qed

section \<open>nativeEmbed\<close>

lemma tokenize_empty_text: "tokenize L vocab [] max_tokens = Inr []"
  by (simp add: tokenize_def)

text \<open>
  C3. On a live session, a text whose tokenization yields no token makes
  \<open>nativeEmbed\<close> return \<open>nullptr\<close>; the empty string is such a text. And the empty
  string yields no array on any handle and any store at all.
\<close>

theorem embed_zero_tokens_returns_null:
  assumes live: "heap_states w handle = Some state"
    and mdl: "heap_models w (model state) = Some m"
    and zero: "tokenize L (llama_model_get_vocab L m) text_str (sint (n_ctx state)) = Inr []"
  shows "(\<exists>w'. nativeEmbed L new_array_ok w handle (Some text_str) = Inr (None, w'))
       \<and> (\<exists>w'. nativeEmbed L new_array_ok w handle (Some []) = Inr (None, w'))
       \<and> (\<forall>w0 h out w'. nativeEmbed L new_array_ok w0 h (Some []) \<noteq> Inr (Some out, w'))"
proof (intro conjI allI)
  show "\<exists>w'. nativeEmbed L new_array_ok w handle (Some text_str) = Inr (None, w')"
    using live mdl zero by (simp add: nativeEmbed_def)
  show "\<exists>w'. nativeEmbed L new_array_ok w handle (Some []) = Inr (None, w')"
    using live mdl by (simp add: nativeEmbed_def tokenize_empty_text)
  show "nativeEmbed L new_array_ok w0 h (Some []) \<noteq> Inr (Some out, w')" for w0 h out w'
    by (simp add: nativeEmbed_def tokenize_empty_text split: option.splits)
qed

theorem embed_zero_tokens_returns_null_witness:
  "(\<exists>w'. nativeEmbed (demo_api gguf_only counting_emb) True demo_world 1 (Some []) = Inr (None, w'))
   \<and> tokenize (demo_api gguf_only counting_emb) () [] (sint (4 :: 32 word)) = Inr []"
proof -
  have live: "heap_states demo_world 1 = Some \<lparr>model = 2, ctx = 3, n_embd = 2, n_ctx = 4\<rparr>"
    by (simp add: demo_world_def)
  have mdl: "heap_models demo_world (model \<lparr>model = 2, ctx = 3, n_embd = 2, n_ctx = 4\<rparr>) = Some 2"
    by (simp add: demo_world_def)
  have zero: "tokenize (demo_api gguf_only counting_emb)
                (llama_model_get_vocab (demo_api gguf_only counting_emb) 2) []
                (sint (n_ctx \<lparr>model = 2, ctx = 3, n_embd = 2, n_ctx = 4\<rparr>)) = Inr []"
    by (simp add: tokenize_empty_text)
  show ?thesis
    using embed_zero_tokens_returns_null [OF live mdl zero, of True]
    by (simp add: tokenize_empty_text)
qed

lemma embed_tokens_events:
  assumes "embed_tokens L new_array_ok w state c tokens = Inr (result, w')"
  shows "\<exists>rc post. events w' = events w @ [MemoryClear (ctx state)]
                        @ [BatchInit (length tokens), Decode (ctx state) rc, BatchFree (length tokens)]
                        @ post
           \<and> batch_events post = []
           \<and> (rc \<noteq> 0 \<longrightarrow> result = None)"
proof -
  obtain rc c2 where d: "llama_decode L (llama_memory_clear L c) (build_batch tokens) = (rc, c2)"
    by (cases "llama_decode L (llama_memory_clear L c) (build_batch tokens)") auto
  have "events w' = events w @ [MemoryClear (ctx state)]
          @ [BatchInit (length tokens), Decode (ctx state) rc, BatchFree (length tokens)] @ []
        \<or> (\<exists>msg. events w' = events w @ [MemoryClear (ctx state)]
          @ [BatchInit (length tokens), Decode (ctx state) rc, BatchFree (length tokens)]
          @ [LogError msg])"
    using assms d
    by (auto simp: embed_tokens_def Let_def emit_def log_error_def
        split: if_splits option.splits sum.splits)
  moreover have "rc \<noteq> 0 \<longrightarrow> result = None"
    using assms d
    by (auto simp: embed_tokens_def Let_def split: if_splits option.splits sum.splits)
  ultimately show ?thesis
    by (auto simp: batch_events_def is_batch_init_def is_batch_free_def)
qed

lemma nativeEmbed_cases:
  assumes "nativeEmbed L new_array_ok w handle text = Inr (result, w')"
  shows "(\<exists>msg. events w' = events w @ [LogError msg])
       \<or> (\<exists>state c tokens. embed_tokens L new_array_ok w state c tokens = Inr (result, w'))"
  using assms
  by (auto simp: nativeEmbed_def log_error_def emit_def
      split: if_splits option.splits sum.splits)

text \<open>
  C7. A call of \<open>nativeEmbed\<close> that returns either touches no batch at all, or its
  events are: one \<open>llama_batch_init\<close>, the \<open>llama_decode\<close>, one
  \<open>llama_batch_free\<close> of that batch, and no other batch event before or after. The
  batch is freed on both paths; when the decode result is not zero the call then returns
  \<open>nullptr\<close>.
\<close>

theorem embed_frees_batch_exactly_once:
  assumes "nativeEmbed L new_array_ok w handle text = Inr (result, w')"
  shows "batch_events (new_events w w') = []
       \<or> (\<exists>n p rc pre post.
             new_events w w' = pre @ [BatchInit n, Decode p rc, BatchFree n] @ post
             \<and> batch_events pre = [] \<and> batch_events post = []
             \<and> (rc \<noteq> 0 \<longrightarrow> result = None))"
  using nativeEmbed_cases [OF assms]
proof
  assume "\<exists>msg. events w' = events w @ [LogError msg]"
  then have "batch_events (new_events w w') = []"
    by (auto simp: new_events_def batch_events_def is_batch_init_def is_batch_free_def)
  then show ?thesis ..
next
  assume "\<exists>state c tokens. embed_tokens L new_array_ok w state c tokens = Inr (result, w')"
  then obtain state c tokens
    where "embed_tokens L new_array_ok w state c tokens = Inr (result, w')"
    by blast
  from embed_tokens_events [OF this] obtain rc post
    where ev: "events w' = events w @ [MemoryClear (ctx state)]
                 @ [BatchInit (length tokens), Decode (ctx state) rc, BatchFree (length tokens)]
                 @ post"
      and post: "batch_events post = []" and rc: "rc \<noteq> 0 \<longrightarrow> result = None"
    by blast
  have "new_events w w' = [MemoryClear (ctx state)]
          @ [BatchInit (length tokens), Decode (ctx state) rc, BatchFree (length tokens)] @ post"
    using ev by (simp add: new_events_def)
  moreover have "batch_events [MemoryClear (ctx state)] = []"
    by (simp add: batch_events_def is_batch_init_def is_batch_free_def)
  ultimately show ?thesis
    using post rc by blast
qed

theorem embed_frees_batch_exactly_once_witness:
  "\<exists>w'. nativeEmbed (demo_api gguf_only counting_emb) True demo_world 1 (Some ''a!'')
           = Inr (None, w')
        \<and> new_events demo_world w'
            = [MemoryClear 3, BatchInit 2, Decode 3 1, BatchFree 2, LogError ''llama_decode failed'']
        \<and> batch_events (new_events demo_world w') = [BatchInit 2, BatchFree 2]"
proof -
  obtain w' where run: "nativeEmbed (demo_api gguf_only counting_emb) True demo_world 1 (Some ''a!'')
      = Inr (None, w')"
    and evs: "new_events demo_world w'
      = [MemoryClear 3, BatchInit 2, Decode 3 1, BatchFree 2, LogError ''llama_decode failed'']"
    by (simp add: embed_eval)
  have "batch_events (new_events demo_world w') = [BatchInit 2, BatchFree 2]"
    using embed_frees_batch_exactly_once [OF run] evs
    by (simp add: batch_events_def is_batch_init_def is_batch_free_def)
  then show ?thesis using run evs by blast
qed

section \<open>nativeRelease\<close>

lemma events_update_state [simp]: "events (update_state p f w) = events w"
  by (simp add: update_state_def split: option.splits)

lemma heap_models_update_state [simp]: "heap_models (update_state p f w) = heap_models w"
  by (simp add: update_state_def split: option.splits)

lemma heap_ctxs_update_state [simp]: "heap_ctxs (update_state p f w) = heap_ctxs w"
  by (simp add: update_state_def split: option.splits)

text \<open>
  C9. \<open>nativeRelease\<close> with the null handle returns the store as it is. With a
  handle to a live \<open>EmbeddingState\<close> it frees the context if the state has one, then
  the model if the state has one, then deletes the state, in this order and nothing else;
  afterwards none of the three is live.
\<close>

theorem release_null_noop_and_order:
  assumes "handle \<noteq> 0" and "heap_states w handle = Some state"
  shows "nativeRelease w0 0 = Inr w0
       \<and> (\<exists>w'. nativeRelease w handle = Inr w'
             \<and> new_events w w'
                 = (if ctx state \<noteq> 0 then [ContextFree (ctx state)] else [])
                   @ (if model state \<noteq> 0 then [ModelFree (model state)] else [])
                   @ [DeleteState handle]
             \<and> heap_states w' handle = None
             \<and> (ctx state \<noteq> 0 \<longrightarrow> heap_ctxs w' (ctx state) = None)
             \<and> (model state \<noteq> 0 \<longrightarrow> heap_models w' (model state) = None))"
  using assms
  by (simp add: nativeRelease_def new_events_def Let_def delete_state_def llama_free_def
      llama_model_free_def emit_def)

theorem release_null_noop_and_order_witness:
  "nativeRelease demo_world 0 = Inr demo_world
   \<and> (\<exists>w'. nativeRelease demo_world 1 = Inr w'
         \<and> new_events demo_world w' = [ContextFree 3, ModelFree 2, DeleteState 1]
         \<and> heap_states w' 1 = None \<and> heap_ctxs w' 3 = None \<and> heap_models w' 2 = None)"
proof -
  have live: "heap_states demo_world 1 = Some \<lparr>model = 2, ctx = 3, n_embd = 2, n_ctx = 4\<rparr>"
    by (simp add: demo_world_def)
  show ?thesis
    using release_null_noop_and_order [OF _ live, of demo_world] by simp
qed

section \<open>nativeInit\<close>

lemma heaps_ensure_backend [simp]:
  "heap_states (ensure_backend w) = heap_states w"
  "heap_models (ensure_backend w) = heap_models w"
  "heap_ctxs (ensure_backend w) = heap_ctxs w"
  "next_ptr (ensure_backend w) = next_ptr w"
  by (simp_all add: ensure_backend_def emit_def)

lemma fresh_is_free:
  assumes "wf_world w"
  shows "heap_states w (next_ptr w + 1) = None"
    and "heap_models w (next_ptr w + 1 + 1) = None"
    and "heap_ctxs w (next_ptr w + 1 + 1 + 1) = None"
  using assms by (simp_all add: wf_world_def)

text \<open>
  C6. From a well-formed store, \<open>nativeInit\<close> returns either a non-null handle to a
  live \<open>EmbeddingState\<close> whose model and context are both non-null and live, or \<open>0\<close>
  with the three heaps exactly as they were before the call. When the model loads and the
  context cannot be built, it returns \<open>0\<close> after freeing the model and deleting the
  state, in this order.
\<close>

theorem init_all_or_nothing:
  assumes wf: "wf_world w" and run: "nativeInit L w model_path = (handle, w')"
  shows "((handle \<noteq> 0
           \<and> (\<exists>state. heap_states w' handle = Some state
                 \<and> model state \<noteq> 0 \<and> ctx state \<noteq> 0
                 \<and> heap_models w' (model state) \<noteq> None
                 \<and> heap_ctxs w' (ctx state) \<noteq> None))
          \<or> (handle = 0 \<and> heap_states w' = heap_states w
               \<and> heap_models w' = heap_models w \<and> heap_ctxs w' = heap_ctxs w))
       \<and> (\<forall>path m. model_path = Some path \<and> llama_model_load_from_file L path = Some m
               \<and> llama_init_from_model L m = None \<longrightarrow>
             handle = 0
             \<and> (\<exists>sp mp. new_events (ensure_backend w) w'
                   = [NewState sp, ModelLoad path, LogError ''Failed to init context'',
                      ModelFree mp, DeleteState sp]))"
proof (cases model_path)
  case None
  then show ?thesis
    using run by (auto simp: nativeInit_def Let_def log_error_def emit_def)
next
  case (Some path)
  note fr = fresh_is_free [OF wf]
  show ?thesis
  proof (cases "llama_model_load_from_file L path")
    case None
    then show ?thesis
      using run Some fr(1)
      by (auto simp: nativeInit_def Let_def log_error_def emit_def new_state_def fresh_ptr_def
          delete_state_def)
  next
    case (Some m)
    note load = this
    show ?thesis
    proof (cases "llama_init_from_model L m")
      case None
      then show ?thesis
        using run \<open>model_path = Some path\<close> load fr(1,2)
        by (auto simp: nativeInit_def Let_def log_error_def emit_def new_state_def fresh_ptr_def
            delete_state_def store_model_def update_state_def llama_model_free_def
            new_events_def)
    next
      case (Some c)
      then show ?thesis
        using run \<open>model_path = Some path\<close> load
        by (auto simp: nativeInit_def Let_def emit_def new_state_def fresh_ptr_def
            store_model_def store_ctx_def update_state_def)
    qed
  qed
qed

theorem init_all_or_nothing_witness:
  "wf_world (empty_world :: (nat, demo_ctx) world)
   \<and> nativeInit (demo_api gguf_only counting_emb) empty_world (Some ''model.gguf'') = (1, demo_world)
   \<and> heap_states demo_world 1 = Some \<lparr>model = 2, ctx = 3, n_embd = 2, n_ctx = 4\<rparr>
   \<and> heap_models demo_world 2 \<noteq> None \<and> heap_ctxs demo_world 3 \<noteq> None"
proof -
  have wf: "wf_world (empty_world :: (nat, demo_ctx) world)"
    by (simp add: wf_world_def empty_world_def)
  show ?thesis
    using init_all_or_nothing [OF wf demo_world_init [of counting_emb]] wf
    by (simp add: demo_world_init demo_world_def)
qed

text \<open>
  C8, as the code has it. Only a null path is rejected before the session is built. An
  empty path is passed to \<open>llama_model_load_from_file\<close> once the
  \<open>EmbeddingState\<close> is allocated: \<open>nativeInit\<close> returns \<open>0\<close> on it exactly when
  the loader or the context construction fails, and a loader failure is reported as
  "Failed to load model" and the state deleted.
\<close>

theorem init_empty_path_reaches_loader:
  "nativeInit L w None = (0, log_error ''Model path is null'' (ensure_backend w))
   \<and> (fst (nativeInit L w (Some [])) = 0 \<longleftrightarrow>
        (llama_model_load_from_file L [] = None
         \<or> (\<exists>m. llama_model_load_from_file L [] = Some m \<and> llama_init_from_model L m = None)))
   \<and> (llama_model_load_from_file L [] = None \<longrightarrow>
        new_events (ensure_backend w) (snd (nativeInit L w (Some [])))
          = [NewState (next_ptr w + 1), ModelLoad [], LogError ''Failed to load model'',
             DeleteState (next_ptr w + 1)])"
proof (intro conjI impI)
  show "nativeInit L w None = (0, log_error ''Model path is null'' (ensure_backend w))"
    by (simp add: nativeInit_def Let_def)
  show "fst (nativeInit L w (Some [])) = 0 \<longleftrightarrow>
        (llama_model_load_from_file L [] = None
         \<or> (\<exists>m. llama_model_load_from_file L [] = Some m \<and> llama_init_from_model L m = None))"
    by (auto simp: nativeInit_def Let_def new_state_def fresh_ptr_def store_model_def
        store_ctx_def split: option.splits prod.splits)
  assume "llama_model_load_from_file L [] = None"
  then show "new_events (ensure_backend w) (snd (nativeInit L w (Some [])))
      = [NewState (next_ptr w + 1), ModelLoad [], LogError ''Failed to load model'',
         DeleteState (next_ptr w + 1)]"
    by (simp add: nativeInit_def Let_def new_state_def fresh_ptr_def delete_state_def
        log_error_def emit_def new_events_def)
qed

theorem init_empty_path_reaches_loader_witness:
  "llama_model_load_from_file (demo_api gguf_only counting_emb) [] = None
   \<and> fst (nativeInit (demo_api gguf_only counting_emb) demo_world (Some [])) = 0
   \<and> new_events (ensure_backend demo_world)
        (snd (nativeInit (demo_api gguf_only counting_emb) demo_world (Some [])))
      = [NewState 4, ModelLoad [], LogError ''Failed to load model'', DeleteState 4]"
proof -
  have fails: "llama_model_load_from_file (demo_api gguf_only counting_emb) [] = None"
    by (simp add: demo_api_def gguf_only_def)
  show ?thesis
    using init_empty_path_reaches_loader [of "demo_api gguf_only counting_emb" demo_world] fails
    by (simp add: demo_world_def)
qed

text \<open>
  The claim as stated fails: with a loader that takes the empty path, \<open>nativeInit\<close>
  returns a handle; and with one that refuses it, the failure is the loader's, after the
  state was allocated and the loader called.
\<close>

theorem init_empty_path_counterexample:
  "fst (nativeInit (demo_api any_path counting_emb) empty_world (Some [])) = 1
   \<and> new_events empty_world
        (snd (nativeInit (demo_api gguf_only counting_emb) empty_world (Some [])))
      = [BackendInit, NewState 1, ModelLoad [], LogError ''Failed to load model'', DeleteState 1]"
  by (simp add: world_eval any_path_def gguf_only_def new_events_def)

section \<open>The store stays well formed\<close>

text \<open>Well-formedness holds of the empty store and is kept by the three entry points.\<close>

lemma wf_empty_world: "wf_world empty_world"
  by (simp add: wf_world_def empty_world_def)

lemma wf_world_nativeInit:
  assumes wf: "wf_world w" and run: "nativeInit L w model_path = (handle, w')"
  shows "wf_world w'"
  using wf run
  by (auto simp: nativeInit_def Let_def log_error_def emit_def new_state_def fresh_ptr_def
      delete_state_def store_model_def store_ctx_def update_state_def llama_model_free_def
      wf_world_def split: option.splits if_splits)

lemma wf_world_nativeEmbed:
  assumes wf: "wf_world w" and run: "nativeEmbed L new_array_ok w handle text = Inr (result, w')"
  shows "wf_world w'"
  using wf run
  by (auto simp: nativeEmbed_def log_error_def emit_def wf_world_def embed_tokens_def Let_def
      split: if_splits option.splits sum.splits prod.splits)

lemma wf_world_nativeRelease:
  assumes wf: "wf_world w" and run: "nativeRelease w handle = Inr w'"
  shows "wf_world w'"
  using wf run
  by (auto simp: nativeRelease_def Let_def emit_def wf_world_def delete_state_def
      llama_free_def llama_model_free_def update_state_def split: if_splits option.splits)

section \<open>Determinism of nativeEmbed\<close>




lemma heaps_log_error [simp]:
  "heap_states (log_error msg w) = heap_states w"
  "heap_models (log_error msg w) = heap_models w"
  "heap_ctxs (log_error msg w) = heap_ctxs w"
  by (simp_all add: log_error_def emit_def)




section \<open>normalize_l2\<close>

lemma sum_squares_foldl:
  "sum_squares vs acc = foldl (\<lambda>a v. f32_add a (f32_mul v v)) acc vs"
  by (induction vs arbitrary: acc) simp_all

lemma scale_all_map: "scale_all vs k = map (\<lambda>v. f32_mul v k) vs"
  by (induction vs) simp_all

lemma length_normalize_l2 [simp]: "length (normalize_l2 vs) = length vs"
  by (simp add: normalize_l2_def Let_def scale_all_map)

lemma square_of_zero:
  assumes "is_zero_f32 v"
  shows "f32_mul v v = f32_zero"
  using assms by (cases v) (simp_all add: is_zero_f32_def round_f32_def f32_zero_def)

lemma zero_plus_zero: "f32_add f32_zero f32_zero = f32_zero"
  by (simp add: f32_zero_def signed_significand_def)

lemma sum_squares_zeros:
  assumes "\<forall>v \<in> set vs. is_zero_f32 v"
  shows "sum_squares vs f32_zero = f32_zero"
  using assms by (induction vs) (simp_all add: square_of_zero zero_plus_zero)

lemma zero_le_zero: "f32_le f32_zero f32_zero"
  by (simp add: f32_zero_def)

lemma normalize_l2_zeros:
  assumes "\<forall>v \<in> set vs. is_zero_f32 v"
  shows "normalize_l2 vs = vs"
  using sum_squares_zeros [OF assms] by (simp add: normalize_l2_def zero_le_zero)

text \<open>
  C5. \<open>normalize_l2\<close> sums the squares of the elements in order, starting from
  \<open>0.0f\<close>; if the sum is \<open>\<le> 0\<close> the vector is returned as it is, otherwise every
  element is multiplied by \<open>1.0f / sqrt(sum)\<close>. A vector of zeros of any length (and of
  either sign) is returned unchanged, and \<open>[3, 4]\<close> becomes \<open>[0.6f, 0.8f]\<close>.
\<close>

theorem normalize_l2_contract:
  "normalize_l2 vs =
     (if f32_le (foldl (\<lambda>a v. f32_add a (f32_mul v v)) f32_zero vs) f32_zero then vs
      else map (\<lambda>v. f32_mul v
                  (f32_div f32_one
                     (f32_sqrt (foldl (\<lambda>a v. f32_add a (f32_mul v v)) f32_zero vs)))) vs)
   \<and> ((\<forall>v \<in> set vs. is_zero_f32 v) \<longrightarrow> normalize_l2 vs = vs)
   \<and> normalize_l2 (replicate N f32_zero) = replicate N f32_zero
   \<and> normalize_l2 [f32_of_nat 3, f32_of_nat 4] = [f32_of_ratio 3 5, f32_of_ratio 4 5]"
proof (intro conjI impI)
  show "normalize_l2 vs =
     (if f32_le (foldl (\<lambda>a v. f32_add a (f32_mul v v)) f32_zero vs) f32_zero then vs
      else map (\<lambda>v. f32_mul v
                  (f32_div f32_one
                     (f32_sqrt (foldl (\<lambda>a v. f32_add a (f32_mul v v)) f32_zero vs)))) vs)"
    by (simp add: normalize_l2_def Let_def sum_squares_foldl scale_all_map)
  show "normalize_l2 vs = vs" if "\<forall>v \<in> set vs. is_zero_f32 v"
    using that by (rule normalize_l2_zeros)
  show "normalize_l2 (replicate N f32_zero) = replicate N f32_zero"
    by (rule normalize_l2_zeros) (simp add: is_zero_f32_def f32_zero_def)
  show "normalize_l2 [f32_of_nat 3, f32_of_nat 4] = [f32_of_ratio 3 5, f32_of_ratio 4 5]"
    by (simp add: normalize_l2_def f32_eval)
qed

theorem normalize_l2_contract_witness:
  "is_zero_f32 f32_zero \<and> is_zero_f32 (Finite True 0 (- 149))
   \<and> normalize_l2 [f32_zero, Finite True 0 (- 149)] = [f32_zero, Finite True 0 (- 149)]
   \<and> f32_of_ratio 3 5 = Finite False 10066330 (- 24)
   \<and> f32_of_ratio 4 5 = Finite False 13421773 (- 24)"
proof -
  have z: "is_zero_f32 f32_zero \<and> is_zero_f32 (Finite True 0 (- 149))"
    by (simp add: is_zero_f32_def f32_zero_def)
  have "normalize_l2 [f32_zero, Finite True 0 (- 149)] = [f32_zero, Finite True 0 (- 149)]"
    using normalize_l2_contract [of "[f32_zero, Finite True 0 (- 149)]", THEN conjunct2,
        THEN conjunct1] z
    by simp
  moreover have "f32_of_ratio 3 5 = Finite False 10066330 (- 24)"
    and "f32_of_ratio 4 5 = Finite False 13421773 (- 24)"
    by (simp_all add: f32_eval)
  ultimately show ?thesis using z by simp
qed

section \<open>Rounding error of normalize_l2\<close>

text \<open>
  The single-precision operations of \<open>normalize_l2\<close> against the real numbers. Every
  operation whose exact result has a magnitude in \<open>[2^-126, 2^126)\<close> returns it with a
  relative error of at most \<open>unit_roundoff = 2^-24\<close>. For a vector of ordinary
  numbers the errors of the squares, of the running sum, of the square root, of the
  reciprocal and of the final products add up to a bound on the sum of squares of the
  vector that \<open>normalize_l2\<close> returns.
\<close>

subsection \<open>One rounding\<close>

lemma bit_length_bounds:
  assumes "0 < m"
  shows "2 ^ (bit_length m - 1) \<le> m \<and> m < 2 ^ bit_length m"
  using assms
proof (induction m rule: bit_length.induct)
  case (1 n)
  show ?case
  proof (cases "n div 2 = 0")
    case True
    then have "n = 1" using 1(2) by (cases n) auto
    then show ?thesis by simp
  next
    case False
    then have pos: "0 < n div 2" by simp
    have ih: "2 ^ (bit_length (n div 2) - 1) \<le> n div 2" "n div 2 < 2 ^ bit_length (n div 2)"
      using 1(1) [OF _ pos] 1(2) by simp_all
    have "0 < bit_length (n div 2)"
      using pos by (subst bit_length.simps) simp
    have bl: "bit_length n = Suc (bit_length (n div 2))"
      using 1(2) by (subst bit_length.simps) simp
    have "2 ^ (bit_length n - 1) = 2 * 2 ^ (bit_length (n div 2) - 1)"
      using \<open>0 < bit_length (n div 2)\<close> bl
      by (cases "bit_length (n div 2)") simp_all
    also have "\<dots> \<le> 2 * (n div 2)" using ih(1) by simp
    also have "\<dots> \<le> n" by simp
    finally have lo: "2 ^ (bit_length n - 1) \<le> n" .
    have "n < 2 * (n div 2) + 2" by linarith
    also have "\<dots> \<le> 2 * 2 ^ bit_length (n div 2)" using ih(2) by simp
    finally have "n < 2 ^ bit_length n" using bl by simp
    then show ?thesis using lo by simp
  qed
qed

lemma round_shift_error:
  fixes r k :: nat and x :: real
  assumes k: "0 < k" and x: "real r \<le> x" "x < real r + 1"
    and st: "sticky \<longleftrightarrow> x \<noteq> real r"
  defines "q \<equiv> r div 2 ^ k" and "rm \<equiv> r mod 2 ^ k" and "half \<equiv> (2::nat) ^ (k - 1)"
  defines "q' \<equiv> (if rm > half \<or> (rm = half \<and> (sticky \<or> odd q)) then q + 1 else q)"
  shows "\<bar>real q' * 2 ^ k - x\<bar> \<le> 2 ^ (k - 1)"
proof -
  have two: "(2::nat) ^ k = 2 * half"
    using k by (cases k) (simp_all add: half_def)
  have r: "r = q * 2 ^ k + rm"
    unfolding q_def rm_def by (rule div_mult_mod_eq [symmetric])
  have rm: "rm < 2 ^ k"
    by (simp add: rm_def)
  have "real r = real (q * 2 ^ k + rm)"
    by (rule arg_cong [OF r])
  then have rr: "real r = real q * 2 ^ k + real rm"
    by simp
  have "real (2 ^ k) = real (2 * half)"
    by (rule arg_cong [OF two])
  then have twor: "(2::real) ^ k = 2 * real half"
    by simp
  have "rm + 1 \<le> 2 * half"
    using rm two by linarith
  then have "real (rm + 1) \<le> real (2 * half)"
    by (rule of_nat_mono)
  then have rm1: "real rm + 1 \<le> 2 * real half"
    by simp
  have halfr: "real half = 2 ^ (k - 1)"
    by (simp add: half_def)
  show ?thesis
  proof (cases "rm > half \<or> (rm = half \<and> (sticky \<or> odd q))")
    case True
    then have q': "q' = q + 1" by (simp add: q'_def)
    have "real half \<le> real rm" using True by auto
    moreover note rm1
    ultimately have "\<bar>(real q + 1) * 2 ^ k - x\<bar> \<le> real half"
      using x rr twor by (simp add: algebra_simps abs_le_iff)
    then show ?thesis using q' halfr by (simp add: add.commute)
  next
    case False
    then have q': "q' = q" by (simp add: q'_def)
    have "rm < half \<or> (rm = half \<and> \<not> sticky)" using False by auto
    then have "x - real q * 2 ^ k \<le> real half"
    proof
      assume "rm < half"
      then have "rm + 1 \<le> half" by linarith
      then have "real (rm + 1) \<le> real half" by (rule of_nat_mono)
      then show ?thesis using x rr by simp
    next
      assume "rm = half \<and> \<not> sticky"
      then have "x = real r" "rm = half" using st by auto
      then show ?thesis using rr by simp
    qed
    moreover have "0 \<le> x - real q * 2 ^ k" using x rr by simp
    ultimately show ?thesis using q' halfr by (simp add: abs_le_iff)
  qed
qed

lemma powi_shift: "(2::real) powi (e + int k) = 2 powi e * 2 ^ k"
  by (simp add: power_int_add)

lemma powi_pos [simp]: "0 < (2::real) powi e"
  by (simp add: zero_less_power_int)

lemma round_f32_accurate:
  fixes x :: real
  assumes m: "0 < m" and x: "real m \<le> x" "x < real m + 1"
    and st: "sticky \<longleftrightarrow> x \<noteq> real m"
    and big: "sticky \<longrightarrow> 25 \<le> bit_length m"
    and normal: "- 149 \<le> e + int (bit_length m) - 24 \<or> (- 149 \<le> e \<and> \<not> sticky)"
    and res: "round_f32 s m e sticky = Finite s' q e'"
  shows "s' = s \<and> 0 < q \<and> q < 2 ^ 24 \<and> - 149 \<le> e'
       \<and> \<bar>real q * 2 powi e' - x * 2 powi e\<bar> \<le> x * 2 powi e / 2 ^ 24"
proof -
  define b where "b = bit_length m"
  have bb: "2 ^ (b - 1) \<le> m" "m < 2 ^ b"
    using bit_length_bounds [OF m] by (simp_all add: b_def)
  have bpos: "0 < b"
    using m bb(2) by (cases b) simp_all
  define e0 where "e0 = max (e + int b - 24) (- 149)"
  have mx: "max (e + int (bit_length m) - 24) (- 149) = e0"
    by (simp add: e0_def b_def)
  have e0lo: "- 149 \<le> e0" "e + int b - 24 \<le> e0"
    by (simp_all add: e0_def)
  have xpos: "0 < x" using m x by simp
  show ?thesis
  proof (cases "e0 \<le> e")
    case True
    then have b24: "b \<le> 24" using e0lo by simp
    then have "\<not> sticky" using big by (auto simp: b_def)
    then have xm: "x = real m" using st by simp
    have r: "s' = s" "q = m * 2 ^ nat (e - e0)" "e' = e0"
      using res m True unfolding round_f32_def mx Let_def by (auto split: if_splits)
    have ek: "e = e0 + int (nat (e - e0))" using True by simp
    have "real q * 2 powi e' = real m * (2 powi e0 * 2 ^ nat (e - e0))"
      using r by simp
    also have "\<dots> = real m * 2 powi e"
      using powi_shift [of e0 "nat (e - e0)"] ek by simp
    finally have val: "real q * 2 powi e' = x * 2 powi e" using xm by simp
    have "nat (e - e0) \<le> 24 - b" using b24 e0lo by simp
    then have "(2::nat) ^ nat (e - e0) \<le> 2 ^ (24 - b)" by simp
    then have "q \<le> m * 2 ^ (24 - b)" using r by simp
    also have "\<dots> < 2 ^ b * 2 ^ (24 - b)" using bb(2) by simp
    also have "\<dots> = 2 ^ (b + (24 - b))" by (simp only: power_add)
    also have "\<dots> = 2 ^ 24" using b24 by simp
    finally have "q < 2 ^ 24" .
    moreover have "0 < q" using r m by simp
    moreover have "0 \<le> x * 2 powi e / 2 ^ 24" using xpos by simp
    ultimately show ?thesis using r val e0lo by simp
  next
    case False
    have e0eq: "e0 = e + int b - 24"
      using normal False by (auto simp: e0_def b_def)
    define k where "k = nat (e0 - e)"
    have kb: "b = k + 24" "0 < k" using False e0eq by (simp_all add: k_def)
    define q0 where "q0 = m div 2 ^ k"
    define rm where "rm = m mod 2 ^ k"
    define q1 where "q1 = (if rm > 2 ^ (k - 1) \<or> (rm = 2 ^ (k - 1) \<and> (sticky \<or> odd q0))
                          then q0 + 1 else q0)"
    have err: "\<bar>real q1 * 2 ^ k - x\<bar> \<le> 2 ^ (k - 1)"
      unfolding q1_def q0_def rm_def by (rule round_shift_error [OF kb(2) x st])
    have r: "s' = s" "q = (if q1 = 2 ^ 24 then 2 ^ 23 else q1)"
      "e' = (if q1 = 2 ^ 24 then e0 + 1 else e0)"
      using res m False unfolding round_f32_def mx Let_def k_def q0_def rm_def q1_def
      by (auto split: if_splits)
    have q0lo: "2 ^ 23 \<le> q0"
    proof -
      have "2 ^ 23 * 2 ^ k \<le> m" using bb(1) kb by (simp add: power_add)
      then show ?thesis
        unfolding q0_def by (simp add: less_eq_div_iff_mult_less_eq)
    qed
    have q0hi: "q0 < 2 ^ 24"
    proof -
      have "m < 2 ^ 24 * 2 ^ k" using bb(2) kb by (simp add: power_add mult.commute)
      then show ?thesis
        unfolding q0_def by (simp add: less_mult_imp_div_less)
    qed
    have q1: "q1 = q0 \<or> q1 = q0 + 1" by (simp add: q1_def)
    have e0k: "e0 = e + int k" using False by (simp add: k_def)
    have val: "real q * 2 powi e' = real q1 * 2 ^ k * 2 powi e"
    proof (cases "q1 = 2 ^ 24")
      case True
      have "real q * 2 powi e' = 2 ^ 23 * 2 powi (e0 + 1)" using r True by simp
      also have "\<dots> = 2 ^ 23 * (2 powi e0 * 2)" by (simp add: power_int_add)
      also have "\<dots> = 2 ^ 24 * 2 powi e0" by simp
      also have "\<dots> = real q1 * (2 powi e * 2 ^ k)"
        using True powi_shift [of e k] e0k by simp
      finally show ?thesis by (simp add: mult_ac)
    next
      case False
      then have "real q * 2 powi e' = real q1 * 2 powi e0" using r by simp
      also have "\<dots> = real q1 * (2 powi e * 2 ^ k)"
        using powi_shift [of e k] e0k by simp
      finally show ?thesis by (simp add: mult_ac)
    qed
    have "2 ^ 23 * 2 ^ k \<le> m" using bb(1) kb by (simp add: power_add)
    then have "real (2 ^ 23 * 2 ^ k) \<le> real m" by (rule of_nat_mono)
    then have "(2::real) ^ 23 * 2 ^ k \<le> x" using x by simp
    moreover have "(2::real) ^ k = 2 * 2 ^ (k - 1)"
      using kb(2) by (cases k) simp_all
    ultimately have half: "(2::real) ^ (k - 1) \<le> x / 2 ^ 24" by simp
    have "real q * 2 powi e' - x * 2 powi e = (real q1 * 2 ^ k - x) * 2 powi e"
      using val by (simp add: left_diff_distrib)
    then have "\<bar>real q * 2 powi e' - x * 2 powi e\<bar> = \<bar>real q1 * 2 ^ k - x\<bar> * \<bar>2 powi e\<bar>"
      by (simp only: abs_mult)
    also have "\<dots> = \<bar>real q1 * 2 ^ k - x\<bar> * 2 powi e"
      by simp
    also have "\<dots> \<le> 2 ^ (k - 1) * 2 powi e"
      using err by (simp add: mult_right_mono)
    also have "\<dots> \<le> x / 2 ^ 24 * 2 powi e"
      using half by (simp add: mult_right_mono)
    finally have bound: "\<bar>real q * 2 powi e' - x * 2 powi e\<bar> \<le> x * 2 powi e / 2 ^ 24"
      by simp
    have "0 < q \<and> q < 2 ^ 24"
      using r q1 q0lo q0hi by (auto split: if_splits)
    moreover have "- 149 \<le> e'" using r e0lo by simp
    ultimately show ?thesis using r bound by simp
  qed
qed

lemma round_f32_finite:
  assumes "max (e + int (bit_length m) - 24) (- 149) \<le> 103"
  shows "\<exists>q e'. round_f32 s m e sticky = Finite s q e'"
proof (cases "m = 0")
  case True
  then show ?thesis by (simp add: round_f32_def)
next
  case m: False
  define e0 where "e0 = max (e + int (bit_length m) - 24) (- 149)"
  have e0: "e0 \<le> 103" using assms by (simp only: e0_def)
  show ?thesis
  proof (cases "e0 \<le> e")
    case True
    then have "round_f32 s m e sticky = Finite s (m * 2 ^ nat (e - e0)) e0"
      using m e0 by (simp add: round_f32_def e0_def [symmetric])
    then show ?thesis by (intro exI)
  next
    case False
    then show ?thesis
      using m e0 unfolding round_f32_def e0_def [symmetric] Let_def
      by (simp split: if_splits)
  qed
qed

lemma powi_less_cancel:
  assumes "(2::real) powi a < 2 powi b"
  shows "a < b"
proof (rule ccontr)
  assume "\<not> a < b"
  then have "b \<le> a" by linarith
  then have "(2::real) powi b \<le> 2 powi a"
    by (intro power_int_increasing) simp_all
  then show False using assms by linarith
qed

lemma exponent_above:
  fixes x :: real
  assumes m: "0 < m" and x: "x < real m + 1"
    and lo: "2 powi (- 126) \<le> x * 2 powi e"
  shows "- 126 < e + int (bit_length m)"
proof -
  define b where "b = bit_length m"
  have bb: "m < 2 ^ b"
    using bit_length_bounds [OF m] by (simp add: b_def)
  have "m + 1 \<le> 2 ^ b" using bb by linarith
  then have "real (m + 1) \<le> real (2 ^ b)" by (rule of_nat_mono)
  then have "real m + 1 \<le> 2 ^ b" by simp
  then have "x < 2 ^ b" using x by linarith
  then have "x * 2 powi e < 2 ^ b * 2 powi e"
    by (rule mult_strict_right_mono) (rule powi_pos)
  also have "\<dots> = 2 powi (e + int b)"
    by (simp only: powi_shift mult.commute)
  finally have up: "x * 2 powi e < 2 powi (e + int b)" .
  have "(2::real) powi (- 126) < 2 powi (e + int b)"
    using lo up by (rule le_less_trans)
  then show ?thesis unfolding b_def by (rule powi_less_cancel)
qed

lemma exponent_below:
  fixes x :: real
  assumes m: "0 < m" and x: "real m \<le> x"
    and hi: "x * 2 powi e < 2 powi 126"
  shows "e + int (bit_length m) \<le> 126"
proof -
  define b where "b = bit_length m"
  have bb: "2 ^ (b - 1) \<le> m" "m < 2 ^ b"
    using bit_length_bounds [OF m] by (simp_all add: b_def)
  have bpos: "0 < b"
    using m bb(2) by (cases b) simp_all
  have "real (2 ^ (b - 1)) \<le> real m"
    using bb(1) by (rule of_nat_mono)
  then have "(2::real) ^ (b - 1) \<le> real m" by simp
  then have "2 ^ (b - 1) \<le> x" using x by linarith
  then have "2 ^ (b - 1) * 2 powi e \<le> x * 2 powi e"
    by (rule mult_right_mono) (rule less_imp_le, rule powi_pos)
  moreover have "2 ^ (b - 1) * 2 powi e = (2::real) powi (e + int (b - 1))"
    by (simp only: powi_shift mult.commute)
  ultimately have "(2::real) powi (e + int (b - 1)) \<le> x * 2 powi e"
    by (simp only:)
  then have "(2::real) powi (e + int (b - 1)) < 2 powi 126"
    using hi by (rule le_less_trans)
  then have "e + int (b - 1) < 126" by (rule powi_less_cancel)
  then show ?thesis using bpos unfolding b_def by linarith
qed

lemma round_f32_in_range:
  fixes x :: real
  assumes m: "0 < m" and x: "real m \<le> x" "x < real m + 1"
    and st: "sticky \<longleftrightarrow> x \<noteq> real m"
    and big: "sticky \<longrightarrow> 25 \<le> bit_length m"
    and lo: "2 powi (- 126) \<le> x * 2 powi e"
    and hi: "x * 2 powi e < 2 powi 126"
  shows "\<exists>q e'. round_f32 s m e sticky = Finite s q e' \<and> 0 < q \<and> q < 2 ^ 24 \<and> - 149 \<le> e'
           \<and> \<bar>real q * 2 powi e' - x * 2 powi e\<bar> \<le> x * 2 powi e / 2 ^ 24"
proof -
  have n1: "- 126 < e + int (bit_length m)"
    using m x(2) lo by (rule exponent_above)
  have n2: "e + int (bit_length m) \<le> 126"
    using m x(1) hi by (rule exponent_below)
  have mx: "max (e + int (bit_length m) - 24) (- 149) \<le> 103"
    using n2 by (simp add: max_def)
  obtain q e' where res: "round_f32 s m e sticky = Finite s q e'"
    using round_f32_finite [OF mx, of s sticky] by (elim exE)
  have normal: "- 149 \<le> e + int (bit_length m) - 24 \<or> (- 149 \<le> e \<and> \<not> sticky)"
    using n1 by (intro disjI1) linarith
  have acc: "s = s \<and> 0 < q \<and> q < 2 ^ 24 \<and> - 149 \<le> e'
       \<and> \<bar>real q * 2 powi e' - x * 2 powi e\<bar> \<le> x * 2 powi e / 2 ^ 24"
    using m x st big normal res by (rule round_f32_accurate)
  show ?thesis
    using res acc by blast
qed

subsection \<open>Products and sums\<close>

lemma powi_mono: "a \<le> b \<Longrightarrow> (2::real) powi a \<le> 2 powi b"
  by (rule power_int_increasing) simp_all

lemma powi_sum: "(2::real) powi a * 2 powi b = 2 powi (a + b)"
  by (simp add: power_int_add)

lemma magnitude_bounds:
  assumes "2 ^ 23 \<le> m" and "m < 2 ^ 24" and "lo \<le> e" and "e \<le> hi"
  shows "2 powi (lo + 23) \<le> real m * 2 powi e"
    and "real m * 2 powi e < 2 powi (hi + 24)"
proof -
  have "real (2 ^ 23) \<le> real m" using assms(1) by (rule of_nat_mono)
  then have m1: "(2::real) powi 23 \<le> real m" by simp
  have "m + 1 \<le> 2 ^ 24" using assms(2) by linarith
  then have "real (m + 1) \<le> real (2 ^ 24)" by (rule of_nat_mono)
  then have m2: "real m < 2 powi 24" by simp
  have "(2::real) powi (lo + 23) = 2 powi 23 * 2 powi lo"
    by (simp only: powi_sum add.commute)
  also have "\<dots> \<le> real m * 2 powi lo"
    using m1 by (rule mult_right_mono) (rule less_imp_le, rule powi_pos)
  also have "\<dots> \<le> real m * 2 powi e"
    using powi_mono [OF assms(3)] by (rule mult_left_mono) simp
  finally show "2 powi (lo + 23) \<le> real m * 2 powi e" .
  have "real m * 2 powi e < 2 powi 24 * 2 powi e"
    using m2 by (rule mult_strict_right_mono) (rule powi_pos)
  also have "\<dots> \<le> 2 powi 24 * 2 powi hi"
    using powi_mono [OF assms(4)] by (rule mult_left_mono) (rule less_imp_le, rule powi_pos)
  also have "\<dots> = 2 powi (hi + 24)"
    by (simp only: powi_sum add.commute)
  finally show "real m * 2 powi e < 2 powi (hi + 24)" .
qed

lemma mul_accurate:
  assumes pos: "0 < m" "0 < n"
    and lo: "2 powi (- 126) \<le> (real m * 2 powi e) * (real n * 2 powi f)"
    and hi: "(real m * 2 powi e) * (real n * 2 powi f) < 2 powi 126"
  shows "\<exists>q e'. f32_mul (Finite s m e) (Finite t n f) = Finite (s \<noteq> t) q e'
           \<and> 0 < q \<and> q < 2 ^ 24 \<and> - 149 \<le> e'
           \<and> \<bar>real q * 2 powi e' - (real m * 2 powi e) * (real n * 2 powi f)\<bar>
               \<le> (real m * 2 powi e) * (real n * 2 powi f) / 2 ^ 24"
proof -
  have eq: "real (m * n) * 2 powi (e + f) = (real m * 2 powi e) * (real n * 2 powi f)"
    by (simp add: power_int_add)
  have mn: "0 < m * n" using pos by simp
  have st: "False \<longleftrightarrow> real (m * n) \<noteq> real (m * n)" by simp
  have big: "False \<longrightarrow> 25 \<le> bit_length (m * n)" by simp
  have x1: "real (m * n) \<le> real (m * n)" by simp
  have x2: "real (m * n) < real (m * n) + 1" by simp
  have lo': "2 powi (- 126) \<le> real (m * n) * 2 powi (e + f)"
    using lo by (simp only: eq)
  have hi': "real (m * n) * 2 powi (e + f) < 2 powi 126"
    using hi by (simp only: eq)
  from round_f32_in_range [OF mn x1 x2 st big lo' hi', of "s \<noteq> t"]
  show ?thesis by (simp only: f32_mul.simps eq)
qed

lemma align_value:
  assumes "g \<le> e"
  shows "real (a * 2 ^ nat (e - g)) * 2 powi g = real a * 2 powi e"
proof -
  have "e = g + int (nat (e - g))" using assms by simp
  then have "(2::real) powi e = 2 powi g * 2 ^ nat (e - g)"
    using powi_shift [of g "nat (e - g)"] by simp
  then show ?thesis by simp
qed

lemma add_accurate:
  assumes res: "f32_add (Finite False a ea) (Finite False b eb) = Finite s q e'"
    and ex: "- 149 \<le> ea" "- 149 \<le> eb"
  shows "s = False \<and> q < 2 ^ 24 \<and> - 149 \<le> e'
       \<and> \<bar>real q * 2 powi e' - (real a * 2 powi ea + real b * 2 powi eb)\<bar>
           \<le> (real a * 2 powi ea + real b * 2 powi eb) / 2 ^ 24"
proof -
  define g where "g = min ea eb"
  define c where "c = a * 2 ^ nat (ea - g) + b * 2 ^ nat (eb - g)"
  have g: "g \<le> ea" "g \<le> eb" "- 149 \<le> g"
    using ex by (simp_all add: g_def)
  have ci: "signed_significand False a * 2 ^ nat (ea - g)
              + signed_significand False b * 2 ^ nat (eb - g) = int c"
    by (simp add: signed_significand_def c_def)
  have val: "real c * 2 powi g = real a * 2 powi ea + real b * 2 powi eb"
  proof -
    have "real c * 2 powi g
            = real (a * 2 ^ nat (ea - g)) * 2 powi g + real (b * 2 ^ nat (eb - g)) * 2 powi g"
      unfolding c_def by (simp only: of_nat_add distrib_right)
    then show ?thesis
      using align_value [OF g(1), of a] align_value [OF g(2), of b] by (simp only:)
  qed
  have unf: "f32_add (Finite False a ea) (Finite False b eb)
      = (if int c = 0 then Finite False 0 (- 149) else round_f32 (int c < 0) (nat \<bar>int c\<bar>) g False)"
    by (simp add: Let_def ci g_def [symmetric])
  show ?thesis
  proof (cases "c = 0")
    case True
    then have "s = False" "q = 0" "e' = - 149"
      using res unf by simp_all
    moreover have "real a * 2 powi ea + real b * 2 powi eb = 0"
      using val True by simp
    ultimately show ?thesis by simp
  next
    case False
    then have cpos: "0 < c" by simp
    have r: "round_f32 False c g False = Finite s q e'"
      using res unf False by simp
    have st: "False \<longleftrightarrow> real c \<noteq> real c" by simp
    have big: "False \<longrightarrow> 25 \<le> bit_length c" by simp
    have normal: "- 149 \<le> g + int (bit_length c) - 24 \<or> (- 149 \<le> g \<and> \<not> False)"
      using g(3) by simp
    have x1: "real c \<le> real c" by simp
    have x2: "real c < real c + 1" by simp
    from round_f32_accurate [OF cpos x1 x2 st big normal r]
    show ?thesis by (simp only: val)
  qed
qed

lemma abs_error_bounds:
  fixes q x u :: real
  assumes "\<bar>q - x\<bar> \<le> x * u"
  shows "(1 - u) * x \<le> q" and "q \<le> (1 + u) * x"
  using assms by (simp_all add: abs_le_iff algebra_simps)

lemma step_lower:
  fixes u :: real
  assumes u: "0 \<le> u" "u \<le> 1" and nn: "0 \<le> A" "0 \<le> V" "0 \<le> E"
    and q1: "(1 - u) * V \<le> Q1" and q2: "(1 - u) * (A + Q1) \<le> Q2"
  shows "(1 - u)\<^sup>2 * (A + V + E) \<le> Q2 + E"
proof -
  have w: "0 \<le> 1 - u" "1 - u \<le> 1" using u by simp_all
  have sq1: "(1 - u)\<^sup>2 \<le> 1 - u"
    using w by (simp add: power2_eq_square mult_left_le)
  have sq2: "(1 - u)\<^sup>2 \<le> 1"
    using sq1 w by linarith
  have "(1 - u)\<^sup>2 * A \<le> (1 - u) * A"
    using sq1 nn(1) by (rule mult_right_mono)
  moreover have "(1 - u)\<^sup>2 * V = (1 - u) * ((1 - u) * V)"
    by (simp add: power2_eq_square)
  moreover have "(1 - u) * ((1 - u) * V) \<le> (1 - u) * Q1"
    using q1 w(1) by (rule mult_left_mono)
  moreover have "(1 - u)\<^sup>2 * E \<le> 1 * E"
    using sq2 nn(3) by (rule mult_right_mono)
  moreover have "(1 - u) * (A + Q1) = (1 - u) * A + (1 - u) * Q1"
    by (simp add: algebra_simps)
  moreover have "(1 - u)\<^sup>2 * (A + V + E) = (1 - u)\<^sup>2 * A + (1 - u)\<^sup>2 * V + (1 - u)\<^sup>2 * E"
    by (simp add: algebra_simps)
  ultimately show ?thesis using q2 by linarith
qed

lemma step_upper:
  fixes u :: real
  assumes u: "0 \<le> u" and nn: "0 \<le> A" "0 \<le> V" "0 \<le> E"
    and q1: "Q1 \<le> (1 + u) * V" and q2: "Q2 \<le> (1 + u) * (A + Q1)"
  shows "Q2 + E \<le> (1 + u)\<^sup>2 * (A + V + E)"
proof -
  have w: "0 \<le> 1 + u" "1 \<le> 1 + u" using u by simp_all
  have sq1: "1 + u \<le> (1 + u)\<^sup>2"
    using w by (simp add: power2_eq_square)
  have sq2: "1 \<le> (1 + u)\<^sup>2"
    using sq1 w by linarith
  have "(1 + u) * A \<le> (1 + u)\<^sup>2 * A"
    using sq1 nn(1) by (rule mult_right_mono)
  moreover have "(1 + u)\<^sup>2 * V = (1 + u) * ((1 + u) * V)"
    by (simp add: power2_eq_square)
  moreover have "(1 + u) * Q1 \<le> (1 + u) * ((1 + u) * V)"
    using q1 w(1) by (rule mult_left_mono)
  moreover have "1 * E \<le> (1 + u)\<^sup>2 * E"
    using sq2 nn(3) by (rule mult_right_mono)
  moreover have "(1 + u) * (A + Q1) = (1 + u) * A + (1 + u) * Q1"
    by (simp add: algebra_simps)
  moreover have "(1 + u)\<^sup>2 * (A + V + E) = (1 + u)\<^sup>2 * A + (1 + u)\<^sup>2 * V + (1 + u)\<^sup>2 * E"
    by (simp add: algebra_simps)
  ultimately show ?thesis using q2 by linarith
qed

lemma f32_real_square:
  "f32_real (Finite s m e) * f32_real (Finite s m e) = (real m * 2 powi e) * (real m * 2 powi e)"
  by (simp add: f32_real_def signed_significand_def)

lemma ordinary_magnitude:
  assumes "ordinary (Finite s m e)" and "m \<noteq> 0"
  shows "0 < m" and "2 powi (- 50) \<le> real m * 2 powi e" and "real m * 2 powi e < 2 powi 50"
proof -
  have o: "2 ^ 23 \<le> m" "m < 2 ^ 24" "- 73 \<le> e" "e \<le> 26"
    using assms by (simp_all add: ordinary_def)
  show "0 < m" using assms(2) by simp
  show "2 powi (- 50) \<le> real m * 2 powi e"
    using magnitude_bounds(1) [OF o(1,2,3) order_refl] by simp
  show "real m * 2 powi e < 2 powi 50"
    using magnitude_bounds(2) [OF o(1,2) order_refl o(4)] by simp
qed

lemma square_accurate:
  assumes "ordinary v"
  shows "\<exists>q e'. f32_mul v v = Finite False q e' \<and> q < 2 ^ 24 \<and> - 149 \<le> e'
           \<and> \<bar>real q * 2 powi e' - f32_real v * f32_real v\<bar>
               \<le> f32_real v * f32_real v / 2 ^ 24"
proof -
  obtain s m e where v: "v = Finite s m e"
    using assms by (cases v) (simp_all add: ordinary_def)
  show ?thesis
  proof (cases "m = 0")
    case True
    then have "f32_mul v v = Finite False 0 (- 149)" "f32_real v = 0"
      by (simp_all add: v round_f32_def f32_real_def signed_significand_def)
    then show ?thesis by simp
  next
    case False
    note o = ordinary_magnitude [OF assms [unfolded v] False]
    let ?M = "real m * 2 powi e"
    have Mpos: "0 < ?M" using o(1) by simp
    have "(2::real) powi (- 126) \<le> 2 powi (- 50) * 2 powi (- 50)"
      by (simp only: powi_sum) (rule powi_mono, simp)
    also have "\<dots> \<le> ?M * ?M"
      using o(2) o(2) by (rule mult_mono) (use Mpos in simp_all)
    finally have lo: "2 powi (- 126) \<le> ?M * ?M" .
    have "?M * ?M < 2 powi 50 * 2 powi 50"
      using o(3) o(3) by (rule mult_strict_mono) (use Mpos in simp_all)
    also have "\<dots> \<le> 2 powi 126"
      by (simp only: powi_sum) (rule powi_mono, simp)
    finally have hi: "?M * ?M < 2 powi 126" .
    from mul_accurate [OF o(1) o(1) lo hi, of s s]
    obtain q e' where r: "f32_mul (Finite s m e) (Finite s m e) = Finite (s \<noteq> s) q e'"
      "q < 2 ^ 24" "- 149 \<le> e'"
      "\<bar>real q * 2 powi e' - ?M * ?M\<bar> \<le> ?M * ?M / 2 ^ 24"
      by (elim exE conjE)
    have "f32_mul v v = Finite False q e'"
      using r(1) by (simp only: v simp_thms)
    moreover have "\<bar>real q * 2 powi e' - f32_real v * f32_real v\<bar>
        \<le> f32_real v * f32_real v / 2 ^ 24"
      using r(4) by (simp only: v f32_real_square)
    ultimately show ?thesis using r(2,3) by (intro exI conjI)
  qed
qed

lemma round_f32_exponent_le:
  assumes "round_f32 s m e sticky = Finite s' q e'"
  shows "e' \<le> 104"
proof (cases "m = 0")
  case True
  then show ?thesis using assms by (simp add: round_f32_def)
next
  case m: False
  define e0 where "e0 = max (e + int (bit_length m) - 24) (- 149)"
  show ?thesis
  proof (cases "e0 \<le> e")
    case True
    then have "round_f32 s m e sticky
        = (if e0 > 104 then Infinity s else Finite s (m * 2 ^ nat (e - e0)) e0)"
      using m by (simp add: round_f32_def e0_def [symmetric])
    then show ?thesis using assms by (simp split: if_splits)
  next
    case False
    define k where "k = nat (e0 - e)"
    define q1 where "q1 = (if m mod 2 ^ k > 2 ^ (k - 1)
                             \<or> (m mod 2 ^ k = 2 ^ (k - 1) \<and> (sticky \<or> odd (m div 2 ^ k)))
                          then m div 2 ^ k + 1 else m div 2 ^ k)"
    define e1 where "e1 = (if q1 = 2 ^ 24 then e0 + 1 else e0)"
    have "round_f32 s m e sticky
        = (if e1 > 104 then Infinity s else Finite s (if q1 = 2 ^ 24 then 2 ^ 23 else q1) e1)"
      using m False unfolding round_f32_def Let_def e1_def q1_def k_def e0_def
      by (simp only: if_False)
    then show ?thesis using assms by (simp split: if_splits)
  qed
qed

lemma add_exponent_le:
  assumes "f32_add (Finite False a ea) (Finite False b eb) = Finite s q e'"
  shows "e' \<le> 104"
proof -
  define c where "c = signed_significand False a * 2 ^ nat (ea - min ea eb)
                      + signed_significand False b * 2 ^ nat (eb - min ea eb)"
  have unf: "f32_add (Finite False a ea) (Finite False b eb)
      = (if c = 0 then Finite False 0 (- 149)
         else round_f32 (c < 0) (nat \<bar>c\<bar>) (min ea eb) False)"
    by (simp add: Let_def c_def)
  show ?thesis
  proof (cases "c = 0")
    case True
    then show ?thesis using assms unf by simp
  next
    case False
    then have "round_f32 (c < 0) (nat \<bar>c\<bar>) (min ea eb) False = Finite s q e'"
      using assms unf by simp
    then show ?thesis by (rule round_f32_exponent_le)
  qed
qed

lemma f32_add_finite_left:
  assumes "f32_add x y = Finite s m e"
  shows "\<exists>s1 m1 e1. x = Finite s1 m1 e1"
  using assms by (cases x; cases y) (simp_all split: if_splits)

lemma sum_squares_finite_acc:
  assumes "sum_squares vs acc = Finite s m e"
  shows "\<exists>s1 m1 e1. acc = Finite s1 m1 e1"
  using assms
proof (induction vs arbitrary: acc)
  case Nil
  then show ?case by simp
next
  case (Cons v vs)
  then have "\<exists>s1 m1 e1. f32_add acc (f32_mul v v) = Finite s1 m1 e1" by simp
  then show ?case using f32_add_finite_left by blast
qed

lemma unit_roundoff_range: "0 \<le> unit_roundoff" "unit_roundoff \<le> 1" "0 < unit_roundoff"
  by (simp_all add: unit_roundoff_def)

lemma unit_roundoff_div: "x / 2 ^ 24 = x * unit_roundoff"
  by (simp add: unit_roundoff_def)

lemma real_sum_squares_nonneg: "0 \<le> real_sum_squares vs"
  by (induction vs) simp_all

lemma sum_squares_accurate:
  assumes ord: "\<forall>v \<in> set vs. ordinary v"
    and acc: "a < 2 ^ 24" "- 149 \<le> ea" "ea \<le> 104"
    and res: "sum_squares vs (Finite False a ea) = Finite s m e"
  shows "s = False \<and> m < 2 ^ 24 \<and> - 149 \<le> e \<and> e \<le> 104
       \<and> (1 - unit_roundoff) ^ (2 * length vs) * (real a * 2 powi ea + real_sum_squares vs)
           \<le> real m * 2 powi e
       \<and> real m * 2 powi e
           \<le> (1 + unit_roundoff) ^ (2 * length vs) * (real a * 2 powi ea + real_sum_squares vs)"
  using assms
proof (induction vs arbitrary: a ea)
  case Nil
  then show ?case by simp
next
  case (Cons v vs)
  let ?u = unit_roundoff
  let ?A = "real a * 2 powi ea"
  let ?V = "f32_real v * f32_real v"
  let ?E = "real_sum_squares vs"
  have ov: "ordinary v" using Cons.prems(1) by simp
  from square_accurate [OF ov] obtain q1 e1
    where sq: "f32_mul v v = Finite False q1 e1" and q1: "q1 < 2 ^ 24" and e1: "- 149 \<le> e1"
      and err1: "\<bar>real q1 * 2 powi e1 - ?V\<bar> \<le> ?V / 2 ^ 24"
    by (elim exE conjE)
  let ?Q1 = "real q1 * 2 powi e1"
  have run: "sum_squares vs (f32_add (Finite False a ea) (Finite False q1 e1)) = Finite s m e"
    using Cons.prems(5) sq by simp
  from sum_squares_finite_acc [OF run] obtain s2 q2 e2
    where add: "f32_add (Finite False a ea) (Finite False q1 e1) = Finite s2 q2 e2"
    by (elim exE)
  note a2 = add_accurate [OF add Cons.prems(3) e1]
  have s2: "s2 = False" and q2: "q2 < 2 ^ 24" and e2: "- 149 \<le> e2"
    and err2: "\<bar>real q2 * 2 powi e2 - (?A + ?Q1)\<bar> \<le> (?A + ?Q1) / 2 ^ 24"
    using a2 by simp_all
  have e2hi: "e2 \<le> 104" using add by (rule add_exponent_le)
  let ?Q2 = "real q2 * 2 powi e2"
  have run2: "sum_squares vs (Finite False q2 e2) = Finite s m e"
    using run add s2 by simp
  have ord': "\<forall>v \<in> set vs. ordinary v" using Cons.prems(1) by simp
  note ih = Cons.IH [OF ord' q2 e2 e2hi run2]
  have nn: "0 \<le> ?A" "0 \<le> ?V" "0 \<le> ?E"
    by (simp_all add: real_sum_squares_nonneg)
  have err1': "\<bar>?Q1 - ?V\<bar> \<le> ?V * ?u"
    using err1 by (simp only: unit_roundoff_div)
  have err2': "\<bar>?Q2 - (?A + ?Q1)\<bar> \<le> (?A + ?Q1) * ?u"
    using err2 by (simp only: unit_roundoff_div)
  have b1: "(1 - ?u) * ?V \<le> ?Q1" "?Q1 \<le> (1 + ?u) * ?V"
    by (rule abs_error_bounds [OF err1'])+
  have b2: "(1 - ?u) * (?A + ?Q1) \<le> ?Q2" "?Q2 \<le> (1 + ?u) * (?A + ?Q1)"
    by (rule abs_error_bounds [OF err2'])+
  have lo: "(1 - ?u)\<^sup>2 * (?A + ?V + ?E) \<le> ?Q2 + ?E"
    using unit_roundoff_range(1,2) nn b1(1) b2(1) by (rule step_lower)
  have hi: "?Q2 + ?E \<le> (1 + ?u)\<^sup>2 * (?A + ?V + ?E)"
    using unit_roundoff_range(1) nn b1(2) b2(2) by (rule step_upper)
  have p1: "0 \<le> (1 - ?u) ^ (2 * length vs)"
    using unit_roundoff_range by simp
  have p2: "0 \<le> (1 + ?u) ^ (2 * length vs)"
    using unit_roundoff_range by simp
  have "(1 - ?u) ^ (2 * length (v # vs)) * (?A + real_sum_squares (v # vs))
          = (1 - ?u) ^ (2 * length vs) * ((1 - ?u)\<^sup>2 * (?A + ?V + ?E))"
    by (simp add: power_add power2_eq_square algebra_simps)
  also have "\<dots> \<le> (1 - ?u) ^ (2 * length vs) * (?Q2 + ?E)"
    using lo p1 by (rule mult_left_mono)
  also have "\<dots> \<le> real m * 2 powi e" using ih by simp
  finally have L: "(1 - ?u) ^ (2 * length (v # vs)) * (?A + real_sum_squares (v # vs))
      \<le> real m * 2 powi e" .
  have "real m * 2 powi e \<le> (1 + ?u) ^ (2 * length vs) * (?Q2 + ?E)" using ih by simp
  also have "\<dots> \<le> (1 + ?u) ^ (2 * length vs) * ((1 + ?u)\<^sup>2 * (?A + ?V + ?E))"
    using hi p2 by (rule mult_left_mono)
  also have "\<dots> = (1 + ?u) ^ (2 * length (v # vs)) * (?A + real_sum_squares (v # vs))"
    by (simp add: power_add power2_eq_square algebra_simps)
  finally have U: "real m * 2 powi e
      \<le> (1 + ?u) ^ (2 * length (v # vs)) * (?A + real_sum_squares (v # vs))" .
  show ?case using ih L U by simp
qed

subsection \<open>Square root and reciprocal\<close>

lemma floor_sqrt_real:
  fixes n :: nat
  shows "real (floor_sqrt n) \<le> sqrt (real n)"
    and "sqrt (real n) < real (floor_sqrt n) + 1"
    and "floor_sqrt n * floor_sqrt n \<noteq> n \<longleftrightarrow> sqrt (real n) \<noteq> real (floor_sqrt n)"
proof -
  define r where "r = floor_sqrt n"
  have c: "r * r \<le> n" "n < (r + 1) * (r + 1)"
    using floor_sqrt_correct [of n] by (simp_all add: r_def)
  have "real (r * r) \<le> real n" using c(1) by (rule of_nat_mono)
  then have "(real r)\<^sup>2 \<le> real n" by (simp add: power2_eq_square)
  then have "sqrt ((real r)\<^sup>2) \<le> sqrt (real n)" by (rule real_sqrt_le_mono)
  then show "real r \<le> sqrt (real n)" by simp
  have "real n < real ((r + 1) * (r + 1))" using c(2) by (simp only: of_nat_less_iff)
  then have "real n < (real r + 1)\<^sup>2" by (simp add: power2_eq_square algebra_simps)
  then have "sqrt (real n) < sqrt ((real r + 1)\<^sup>2)" by (rule real_sqrt_less_mono)
  then show "sqrt (real n) < real r + 1" by simp
  show "r * r \<noteq> n \<longleftrightarrow> sqrt (real n) \<noteq> real r"
  proof -
    have "r * r = n \<longleftrightarrow> sqrt (real n) = real r"
    proof
      assume "r * r = n"
      then have "real n = (real r)\<^sup>2"
        by (metis of_nat_mult power2_eq_square)
      then show "sqrt (real n) = real r" by simp
    next
      assume "sqrt (real n) = real r"
      then have "(sqrt (real n))\<^sup>2 = (real r)\<^sup>2" by simp
      then have "real n = real (r * r)" by (simp add: power2_eq_square)
      then show "r * r = n" by (simp only: of_nat_eq_iff)
    qed
    then show ?thesis by simp
  qed
qed

lemma sqrt_powi_square: "sqrt (y * (2 powi a)\<^sup>2) = sqrt y * 2 powi a"
  by (simp add: real_sqrt_mult)

lemma abs_powi: "\<bar>(2::real) powi a\<bar> = 2 powi a"
  by simp

lemma powi_double: "((2::real) powi a)\<^sup>2 = 2 powi (2 * a)"
  by (simp add: power2_eq_square powi_sum)

lemma sqrt_accurate:
  assumes m: "0 < m" "m < 2 ^ 24" and e: "- 149 \<le> e" "e \<le> 104"
  shows "\<exists>q e'. f32_sqrt (Finite False m e) = Finite False q e'
           \<and> 0 < q \<and> q < 2 ^ 24 \<and> - 149 \<le> e'
           \<and> \<bar>real q * 2 powi e' - sqrt (real m * 2 powi e)\<bar>
               \<le> sqrt (real m * 2 powi e) / 2 ^ 24"
proof -
  define b where "b = e mod 2"
  define big where "big = m * 2 ^ nat b * 2 ^ 52"
  define r where "r = floor_sqrt big"
  define a where "a = (e - b) div 2 - 26"
  let ?M = "real m * 2 powi e"
  let ?x = "sqrt (real big)"
  have unf: "f32_sqrt (Finite False m e) = round_f32 False r a (r * r \<noteq> big)"
    using m(1) by (simp add: Let_def b_def big_def r_def a_def)
  have b01: "0 \<le> b" "b \<le> 1" by (simp_all add: b_def)
  have even: "2 * ((e - b) div 2) = e - b"
    unfolding b_def by presburger
  have a2: "2 * a = e - b - 52" using even by (simp add: a_def)
  have x: "real r \<le> ?x" "?x < real r + 1" and st: "r * r \<noteq> big \<longleftrightarrow> ?x \<noteq> real r"
    using floor_sqrt_real [of big] by (simp_all add: r_def)
  have big_lo: "2 ^ 52 \<le> big"
    using m(1) by (simp add: big_def)
  have c: "big < (r + 1) * (r + 1)"
    using floor_sqrt_correct [of big] by (simp add: r_def)
  have r_lo: "2 ^ 26 \<le> r"
  proof (rule ccontr)
    assume "\<not> 2 ^ 26 \<le> r"
    then have A: "r + 1 \<le> 2 ^ 26" by simp
    have "(r + 1) * (r + 1) \<le> 2 ^ 26 * 2 ^ 26" using A A by (rule mult_le_mono)
    then show False using c big_lo by simp
  qed
  then have rpos: "0 < r" by simp
  have bits: "25 \<le> bit_length r"
  proof -
    have "r < 2 ^ bit_length r" using bit_length_bounds [OF rpos] by simp
    then have "(2::nat) ^ 26 < 2 ^ bit_length r" using r_lo by linarith
    then have "26 < bit_length r" by (simp only: power_strict_increasing_iff rel_simps)
    then show ?thesis by simp
  qed
  have bigr: "real big = real m * 2 powi b * 2 powi 52"
  proof -
    have "b = int (nat b)" using b01 by simp
    then have "(2::real) powi b = 2 ^ nat b" by (metis power_int_of_nat)
    then show ?thesis by (simp add: big_def)
  qed
  have val: "?x * 2 powi a = sqrt ?M"
  proof -
    have "real big * (2 powi a)\<^sup>2 = real m * (2 powi b * 2 powi 52 * 2 powi (e - b - 52))"
      by (simp only: bigr powi_double a2 mult.assoc)
    also have "\<dots> = real m * 2 powi e"
      by (simp only: powi_sum) simp
    finally have "sqrt (real big * (2 powi a)\<^sup>2) = sqrt ?M" by simp
    then show ?thesis by (simp only: sqrt_powi_square)
  qed
  have M_lo: "2 powi (- 252) \<le> ?M"
  proof -
    have "(2::real) powi (- 252) \<le> 2 powi e" using e(1) by (intro powi_mono) simp
    also have "\<dots> = 1 * 2 powi e" by simp
    also have "\<dots> \<le> real m * 2 powi e"
      using m(1) by (intro mult_right_mono) simp_all
    finally show ?thesis .
  qed
  have M_hi: "?M < 2 powi 252"
  proof -
    have "m + 1 \<le> 2 ^ 24" using m(2) by linarith
    then have "real (m + 1) \<le> real (2 ^ 24)" by (rule of_nat_mono)
    then have "real m < 2 powi 24" by simp
    then have "?M < 2 powi 24 * 2 powi e"
      by (rule mult_strict_right_mono) (rule powi_pos)
    also have "\<dots> = 2 powi (24 + e)" by (simp only: powi_sum)
    also have "\<dots> \<le> 2 powi 252" using e(2) by (intro powi_mono) simp
    finally show ?thesis .
  qed
  have lo: "2 powi (- 126) \<le> ?x * 2 powi a"
  proof -
    have "sqrt (((2::real) powi (- 126))\<^sup>2) \<le> sqrt ?M"
      using M_lo by (intro real_sqrt_le_mono) (simp only: powi_double, simp)
    then show ?thesis by (simp only: val real_sqrt_abs abs_powi)
  qed
  have hi: "?x * 2 powi a < 2 powi 126"
  proof -
    have "sqrt ?M < sqrt (((2::real) powi 126)\<^sup>2)"
      using M_hi by (intro real_sqrt_less_mono) (simp only: powi_double, simp)
    then show ?thesis by (simp only: val real_sqrt_abs abs_powi)
  qed
  have big': "r * r \<noteq> big \<longrightarrow> 25 \<le> bit_length r" using bits by simp
  from round_f32_in_range [OF rpos x st big' lo hi, of False]
  show ?thesis by (simp only: unf val)
qed

lemma nat_div_real:
  assumes "0 < n"
  shows "real (N div n) \<le> real N / real n"
    and "real N / real n < real (N div n) + 1"
    and "N mod n \<noteq> 0 \<longleftrightarrow> real N / real n \<noteq> real (N div n)"
proof -
  have "real N = real (N div n * n + N mod n)" by simp
  then have "real N = real (N div n) * real n + real (N mod n)"
    by (simp only: of_nat_add of_nat_mult)
  then have split: "real N / real n = real (N div n) + real (N mod n) / real n"
    using assms by (simp add: field_simps)
  have "N mod n < n" using assms by simp
  then have "real (N mod n) < real n" by (simp only: of_nat_less_iff)
  then have frac: "real (N mod n) / real n < 1" using assms by simp
  have nn: "0 \<le> real (N mod n) / real n" by simp
  show "real (N div n) \<le> real N / real n" using split nn by linarith
  show "real N / real n < real (N div n) + 1" using split frac by linarith
  show "N mod n \<noteq> 0 \<longleftrightarrow> real N / real n \<noteq> real (N div n)"
    using split assms by simp
qed

lemma recip_accurate:
  assumes n: "0 < n" "n < 2 ^ 24"
    and lo: "2 powi (- 125) \<le> real n * 2 powi f"
    and hi: "real n * 2 powi f \<le> 2 powi 126"
  shows "\<exists>q e'. f32_div f32_one (Finite False n f) = Finite False q e'
           \<and> 0 < q \<and> q < 2 ^ 24 \<and> - 149 \<le> e'
           \<and> \<bar>real q * 2 powi e' - 1 / (real n * 2 powi f)\<bar>
               \<le> 1 / (real n * 2 powi f) / 2 ^ 24"
proof -
  define N :: nat where "N = 2 ^ 23 * 2 ^ 50"
  define d where "d = N div n"
  let ?x = "real N / real n"
  let ?T = "real n * 2 powi f"
  have unf: "f32_div f32_one (Finite False n f) = round_f32 False d (- 73 - f) (N mod n \<noteq> 0)"
    using n(1) by (simp add: f32_one_def N_def d_def)
  have x: "real d \<le> ?x" "?x < real d + 1" and st: "N mod n \<noteq> 0 \<longleftrightarrow> ?x \<noteq> real d"
    unfolding d_def by (rule nat_div_real [OF n(1)])+
  have "2 ^ 49 * n \<le> 2 ^ 49 * 2 ^ 24"
    using n(2) by (intro mult_le_mono2) simp
  also have "\<dots> = N" by (simp add: N_def)
  finally have d_lo: "2 ^ 49 \<le> d"
    unfolding d_def using n(1) by (simp add: less_eq_div_iff_mult_less_eq)
  then have dpos: "0 < d" by simp
  have bits: "25 \<le> bit_length d"
  proof -
    have "d < 2 ^ bit_length d" using bit_length_bounds [OF dpos] by simp
    then have "(2::nat) ^ 49 < 2 ^ bit_length d" using d_lo by linarith
    then have "49 < bit_length d" by (simp only: power_strict_increasing_iff rel_simps)
    then show ?thesis by simp
  qed
  have Tpos: "0 < ?T" using n(1) by simp
  have Nr: "real N = 2 powi 73"
    by (simp add: N_def)
  have val: "?x * 2 powi (- 73 - f) = 1 / ?T"
  proof -
    have "(2::real) powi 73 * 2 powi (- 73 - f) = 2 powi (- f)"
      by (simp only: powi_sum) simp
    then have "real N * 2 powi (- 73 - f) = 1 / 2 powi f"
      by (simp only: Nr power_int_minus inverse_eq_divide)
    then have "?x * 2 powi (- 73 - f) = 1 / 2 powi f / real n"
      by (simp only: times_divide_eq_left divide_divide_eq_left mult.commute)
    then show ?thesis by (simp only: divide_divide_eq_left mult.commute)
  qed
  have lo': "2 powi (- 126) \<le> ?x * 2 powi (- 73 - f)"
  proof -
    have "1 / 2 powi 126 \<le> 1 / ?T"
      using hi Tpos by (intro divide_left_mono) simp_all
    moreover have "1 / 2 powi 126 = (2::real) powi (- 126)"
      by (simp only: power_int_minus inverse_eq_divide)
    ultimately show ?thesis by (simp only: val)
  qed
  have hi': "?x * 2 powi (- 73 - f) < 2 powi 126"
  proof -
    have "1 / ?T \<le> 1 / 2 powi (- 125)"
      using lo by (intro divide_left_mono) simp_all
    also have "1 / 2 powi (- 125) = (2::real) powi 125"
      by (simp only: power_int_minus inverse_eq_divide divide_divide_eq_right)
    also have "(2::real) powi 125 < 2 powi 126"
      by (rule power_int_strict_increasing) simp_all
    finally show ?thesis by (simp only: val)
  qed
  have big: "N mod n \<noteq> 0 \<longrightarrow> 25 \<le> bit_length d" using bits by simp
  from round_f32_in_range [OF dpos x st big lo' hi', of False]
  show ?thesis by (simp only: unf val)
qed

subsection \<open>The sum of squares stays in range\<close>

lemma add_finite:
  assumes hi: "real a * 2 powi ea + real b * 2 powi eb < 2 powi 126"
  shows "\<exists>q e'. f32_add (Finite False a ea) (Finite False b eb) = Finite False q e'"
proof -
  define g where "g = min ea eb"
  define c where "c = a * 2 ^ nat (ea - g) + b * 2 ^ nat (eb - g)"
  have g: "g \<le> ea" "g \<le> eb"
    by (simp_all add: g_def)
  have ci: "signed_significand False a * 2 ^ nat (ea - g)
              + signed_significand False b * 2 ^ nat (eb - g) = int c"
    by (simp add: signed_significand_def c_def)
  have val: "real c * 2 powi g = real a * 2 powi ea + real b * 2 powi eb"
  proof -
    have "real c * 2 powi g
            = real (a * 2 ^ nat (ea - g)) * 2 powi g + real (b * 2 ^ nat (eb - g)) * 2 powi g"
      unfolding c_def by (simp only: of_nat_add distrib_right)
    then show ?thesis
      using align_value [OF g(1), of a] align_value [OF g(2), of b] by (simp only:)
  qed
  have unf: "f32_add (Finite False a ea) (Finite False b eb)
      = (if int c = 0 then Finite False 0 (- 149) else round_f32 (int c < 0) (nat \<bar>int c\<bar>) g False)"
    by (simp add: Let_def ci g_def [symmetric])
  show ?thesis
  proof (cases "c = 0")
    case True
    then show ?thesis using unf by simp
  next
    case False
    then have cpos: "0 < c" by simp
    have x1: "real c \<le> real c" by simp
    have hi': "real c * 2 powi g < 2 powi 126" using hi by (simp only: val)
    have n2: "g + int (bit_length c) \<le> 126"
      using cpos x1 hi' by (rule exponent_below)
    have mx: "max (g + int (bit_length c) - 24) (- 149) \<le> 103"
      using n2 by (simp add: max_def)
    obtain q e' where "round_f32 False c g False = Finite False q e'"
      using round_f32_finite [OF mx, of False False] by (elim exE)
    then show ?thesis using unf False by simp
  qed
qed

lemma one_le_pow_roundoff: "1 \<le> (1 + unit_roundoff) ^ k"
  using unit_roundoff_range(1) by (intro one_le_power) simp

lemma sum_squares_finite:
  assumes ord: "\<forall>v \<in> set vs. ordinary v"
    and acc: "a < 2 ^ 24" "- 149 \<le> ea" "ea \<le> 104"
    and bound: "(1 + unit_roundoff) ^ (2 * length vs) * (real a * 2 powi ea + real_sum_squares vs)
                  < 2 powi 126"
  shows "\<exists>m e. sum_squares vs (Finite False a ea) = Finite False m e"
  using assms
proof (induction vs arbitrary: a ea)
  case Nil
  then show ?case by simp
next
  case (Cons v vs)
  let ?u = unit_roundoff
  let ?A = "real a * 2 powi ea"
  let ?V = "f32_real v * f32_real v"
  let ?E = "real_sum_squares vs"
  have ov: "ordinary v" using Cons.prems(1) by simp
  from square_accurate [OF ov] obtain q1 e1
    where sq: "f32_mul v v = Finite False q1 e1" and q1: "q1 < 2 ^ 24" and e1: "- 149 \<le> e1"
      and err1: "\<bar>real q1 * 2 powi e1 - ?V\<bar> \<le> ?V / 2 ^ 24"
    by (elim exE conjE)
  let ?Q1 = "real q1 * 2 powi e1"
  have nn: "0 \<le> ?A" "0 \<le> ?V" "0 \<le> ?E"
    by (simp_all add: real_sum_squares_nonneg)
  have err1': "\<bar>?Q1 - ?V\<bar> \<le> ?V * ?u"
    using err1 by (simp only: unit_roundoff_div)
  have b1: "?Q1 \<le> (1 + ?u) * ?V"
    by (rule abs_error_bounds [OF err1'])
  have total: "(1 + ?u)\<^sup>2 * (?A + ?V + ?E)
                 \<le> (1 + ?u) ^ (2 * length (v # vs)) * (?A + real_sum_squares (v # vs))"
  proof -
    have "(1 + ?u)\<^sup>2 * (?A + ?V + ?E) = 1 * ((1 + ?u)\<^sup>2 * (?A + ?V + ?E))" by simp
    also have "\<dots> \<le> (1 + ?u) ^ (2 * length vs) * ((1 + ?u)\<^sup>2 * (?A + ?V + ?E))"
      using one_le_pow_roundoff nn by (intro mult_right_mono) simp_all
    also have "\<dots> = (1 + ?u) ^ (2 * length (v # vs)) * (?A + real_sum_squares (v # vs))"
      by (simp add: power_add power2_eq_square algebra_simps)
    finally show ?thesis .
  qed
  have "?A + ?Q1 \<le> ?A + (1 + ?u) * ?V" using b1 by simp
  also have "\<dots> \<le> (1 + ?u) * (?A + ?V)"
    using nn unit_roundoff_range(1) by (simp add: algebra_simps mult_nonneg_nonneg)
  also have "\<dots> \<le> (1 + ?u) * ((1 + ?u) * (?A + ?V + ?E))"
  proof -
    have "?A + ?V \<le> 1 * (?A + ?V + ?E)" using nn by simp
    also have "\<dots> \<le> (1 + ?u) * (?A + ?V + ?E)"
      using unit_roundoff_range(1) nn by (intro mult_right_mono) simp_all
    finally show ?thesis
      using unit_roundoff_range(1) by (intro mult_left_mono) simp_all
  qed
  also have "\<dots> = (1 + ?u)\<^sup>2 * (?A + ?V + ?E)"
    by (simp add: power2_eq_square)
  also have "\<dots> \<le> (1 + ?u) ^ (2 * length (v # vs)) * (?A + real_sum_squares (v # vs))"
    by (rule total)
  also have "\<dots> < 2 powi 126" by (rule Cons.prems(5))
  finally have "?A + ?Q1 < 2 powi 126" .
  from add_finite [OF this] obtain q2 e2
    where add: "f32_add (Finite False a ea) (Finite False q1 e1) = Finite False q2 e2"
    by (elim exE)
  note a2 = add_accurate [OF add Cons.prems(3) e1]
  have q2: "q2 < 2 ^ 24" and e2: "- 149 \<le> e2"
    and err2: "\<bar>real q2 * 2 powi e2 - (?A + ?Q1)\<bar> \<le> (?A + ?Q1) / 2 ^ 24"
    using a2 by simp_all
  have e2hi: "e2 \<le> 104" using add by (rule add_exponent_le)
  let ?Q2 = "real q2 * 2 powi e2"
  have err2': "\<bar>?Q2 - (?A + ?Q1)\<bar> \<le> (?A + ?Q1) * ?u"
    using err2 by (simp only: unit_roundoff_div)
  have b2: "?Q2 \<le> (1 + ?u) * (?A + ?Q1)"
    by (rule abs_error_bounds [OF err2'])
  have hi: "?Q2 + ?E \<le> (1 + ?u)\<^sup>2 * (?A + ?V + ?E)"
    using unit_roundoff_range(1) nn b1 b2 by (rule step_upper)
  have p2: "0 \<le> (1 + ?u) ^ (2 * length vs)"
    using unit_roundoff_range by simp
  have "(1 + ?u) ^ (2 * length vs) * (?Q2 + ?E)
          \<le> (1 + ?u) ^ (2 * length vs) * ((1 + ?u)\<^sup>2 * (?A + ?V + ?E))"
    using hi p2 by (rule mult_left_mono)
  also have "\<dots> = (1 + ?u) ^ (2 * length (v # vs)) * (?A + real_sum_squares (v # vs))"
    by (simp add: power_add power2_eq_square algebra_simps)
  also have "\<dots> < 2 powi 126" by (rule Cons.prems(5))
  finally have bound': "(1 + ?u) ^ (2 * length vs) * (?Q2 + ?E) < 2 powi 126" .
  have ord': "\<forall>v \<in> set vs. ordinary v" using Cons.prems(1) by simp
  from Cons.IH [OF ord' q2 e2 e2hi bound']
  show ?case using sq add by simp
qed

lemma pow_roundoff_lower:
  assumes "k \<le> 2 ^ 23"
  shows "1 / 2 \<le> (1 - unit_roundoff) ^ k"
proof -
  have "real k \<le> real (2 ^ 23)" using assms by (rule of_nat_mono)
  then have "real k * unit_roundoff \<le> 2 ^ 23 * unit_roundoff"
    using unit_roundoff_range(1) by (intro mult_right_mono) simp_all
  also have "\<dots> = 1 / 2" by (simp add: unit_roundoff_def)
  finally have "1 / 2 \<le> 1 + real k * (- unit_roundoff)" by simp
  also have "\<dots> \<le> (1 + (- unit_roundoff)) ^ k"
    using unit_roundoff_range(2) by (intro Bernoulli_inequality) simp
  finally show ?thesis by simp
qed

lemma pow_roundoff_upper:
  assumes "k \<le> 2 ^ 23"
  shows "(1 + unit_roundoff) ^ k \<le> 2"
proof -
  let ?u = unit_roundoff
  have lo: "1 / 2 \<le> (1 - ?u) ^ k" using assms by (rule pow_roundoff_lower)
  have "0 \<le> (1 + ?u) * (1 - ?u)"
    using unit_roundoff_range by (intro mult_nonneg_nonneg) simp_all
  moreover have "(1 + ?u) * (1 - ?u) \<le> 1" by (simp add: algebra_simps)
  ultimately have "((1 + ?u) * (1 - ?u)) ^ k \<le> 1" by (rule power_le_one)
  then have prod: "(1 + ?u) ^ k * (1 - ?u) ^ k \<le> 1" by (simp only: power_mult_distrib)
  have nn: "0 \<le> (1 + ?u) ^ k" using unit_roundoff_range(1) by simp
  have "(1 + ?u) ^ k * (1 / 2) \<le> (1 + ?u) ^ k * (1 - ?u) ^ k"
    using lo nn by (rule mult_left_mono)
  then show ?thesis using prod by simp
qed

lemma ordinary_square_bounds:
  assumes "ordinary v"
  shows "f32_real v * f32_real v \<le> 2 powi 100"
    and "\<not> is_zero_f32 v \<Longrightarrow> 2 powi (- 100) \<le> f32_real v * f32_real v"
proof -
  obtain s m e where v: "v = Finite s m e"
    using assms by (cases v) (simp_all add: ordinary_def)
  let ?x = "real m * 2 powi e"
  have sq: "f32_real v * f32_real v = ?x * ?x"
    unfolding v by (rule f32_real_square)
  have nz: "2 powi (- 100) \<le> ?x * ?x \<and> ?x * ?x \<le> 2 powi 100" if "m \<noteq> 0"
  proof -
    note b = ordinary_magnitude [OF assms [unfolded v] that]
    have p: "0 \<le> (2::real) powi (- 50)" by simp
    have "(2::real) powi (- 50) * 2 powi (- 50) \<le> ?x * ?x"
      using b(2) b(2) p p by (rule mult_mono')
    then have l: "2 powi (- 100) \<le> ?x * ?x" by (simp only: powi_sum) simp
    have x0: "0 \<le> ?x" by simp
    have "?x * ?x \<le> 2 powi 50 * 2 powi 50"
      using less_imp_le [OF b(3)] less_imp_le [OF b(3)] x0 x0 by (rule mult_mono')
    then have "?x * ?x \<le> 2 powi 100" by (simp only: powi_sum) simp
    then show ?thesis using l by (intro conjI)
  qed
  show "f32_real v * f32_real v \<le> 2 powi 100"
  proof (cases "m = 0")
    case True
    then show ?thesis by (simp add: sq)
  next
    case False
    then show ?thesis using nz [OF False] by (simp only: sq)
  qed
  show "2 powi (- 100) \<le> f32_real v * f32_real v" if "\<not> is_zero_f32 v"
  proof -
    have m: "m \<noteq> 0" using that by (simp add: v is_zero_f32_def)
    show ?thesis using nz [OF m] by (simp only: sq)
  qed
qed

lemma real_sum_squares_upper:
  assumes "\<forall>v \<in> set vs. ordinary v"
  shows "real_sum_squares vs \<le> real (length vs) * 2 powi 100"
  using assms
proof (induction vs)
  case Nil
  then show ?case by simp
next
  case (Cons v vs)
  have "f32_real v * f32_real v \<le> 2 powi 100"
    using Cons.prems by (intro ordinary_square_bounds(1)) simp
  moreover have "real_sum_squares vs \<le> real (length vs) * 2 powi 100"
    using Cons by simp
  ultimately show ?case by (simp add: algebra_simps)
qed

lemma real_sum_squares_lower:
  assumes "\<forall>v \<in> set vs. ordinary v" and "\<exists>v \<in> set vs. \<not> is_zero_f32 v"
  shows "2 powi (- 100) \<le> real_sum_squares vs"
  using assms
proof (induction vs)
  case Nil
  then show ?case by simp
next
  case (Cons v vs)
  have ov: "ordinary v" using Cons.prems(1) by simp
  have sq: "0 \<le> f32_real v * f32_real v" by simp
  show ?case
  proof (cases "is_zero_f32 v")
    case True
    then have "\<exists>v \<in> set vs. \<not> is_zero_f32 v" using Cons.prems(2) by simp
    then have "2 powi (- 100) \<le> real_sum_squares vs" using Cons by simp
    then show ?thesis using sq by (simp only: real_sum_squares.simps)
  next
    case False
    have "2 powi (- 100) \<le> f32_real v * f32_real v"
      using ov False by (rule ordinary_square_bounds(2))
    then show ?thesis using real_sum_squares_nonneg [of vs]
      by (simp only: real_sum_squares.simps)
  qed
qed

lemma powi_twice: "2 * (2::real) powi a = 2 powi (a + 1)"
  using powi_sum [of 1 a] by (simp add: add.commute)

lemma powi_half: "(2::real) powi a / 2 = 2 powi (a - 1)"
  using powi_twice [of "a - 1"] by simp

lemma sum_squares_in_range:
  assumes ord: "\<forall>v \<in> set vs. ordinary v"
    and nz: "\<exists>v \<in> set vs. \<not> is_zero_f32 v"
    and len: "length vs \<le> 2 ^ 22"
  shows "\<exists>m e. sum_squares vs f32_zero = Finite False m e
           \<and> 0 < m \<and> m < 2 ^ 24 \<and> - 149 \<le> e \<and> e \<le> 104
           \<and> (1 - unit_roundoff) ^ (2 * length vs) * real_sum_squares vs \<le> real m * 2 powi e
           \<and> real m * 2 powi e \<le> (1 + unit_roundoff) ^ (2 * length vs) * real_sum_squares vs
           \<and> 2 powi (- 101) \<le> real m * 2 powi e
           \<and> real m * 2 powi e \<le> 2 powi 123"
proof -
  let ?u = unit_roundoff
  let ?E = "real_sum_squares vs"
  let ?k = "2 * length vs"
  have k: "?k \<le> 2 ^ 23" using len by simp
  have pl: "1 / 2 \<le> (1 - ?u) ^ ?k" using k by (rule pow_roundoff_lower)
  have pu: "(1 + ?u) ^ ?k \<le> 2" using k by (rule pow_roundoff_upper)
  have E_lo: "2 powi (- 100) \<le> ?E" using ord nz by (rule real_sum_squares_lower)
  have E0: "0 \<le> ?E" by (rule real_sum_squares_nonneg)
  have "real (length vs) \<le> real (2 ^ 22)" using len by (rule of_nat_mono)
  then have "real (length vs) \<le> 2 powi 22" by simp
  then have "real (length vs) * 2 powi 100 \<le> 2 powi 22 * 2 powi 100"
    by (rule mult_right_mono) simp
  then have "real (length vs) * 2 powi 100 \<le> 2 powi 122"
    by (simp only: powi_sum) simp
  then have E_hi: "?E \<le> 2 powi 122"
    using real_sum_squares_upper [OF ord] by linarith
  have up: "(1 + ?u) ^ ?k * ?E \<le> 2 powi 123"
  proof -
    have "(1 + ?u) ^ ?k * ?E \<le> 2 * 2 powi 122"
      using pu E_hi E0 by (intro mult_mono) simp_all
    then show ?thesis by (simp only: powi_twice) simp
  qed
  have "(2::real) powi 123 < 2 powi 126"
    by (rule power_int_strict_increasing) simp_all
  then have bound: "(1 + ?u) ^ ?k * (real 0 * 2 powi (- 149) + ?E) < 2 powi 126"
    using up by simp
  have z: "(0::nat) < 2 ^ 24" "(- 149::int) \<le> - 149" "(- 149::int) \<le> 104" by simp_all
  from sum_squares_finite [OF ord z bound] obtain m e
    where res: "sum_squares vs (Finite False 0 (- 149)) = Finite False m e"
    by (elim exE)
  note acc = sum_squares_accurate [OF ord z res]
  let ?M = "real m * 2 powi e"
  have m: "m < 2 ^ 24" and e: "- 149 \<le> e" "e \<le> 104"
    and lo: "(1 - ?u) ^ ?k * ?E \<le> ?M" and hi: "?M \<le> (1 + ?u) ^ ?k * ?E"
    using acc by simp_all
  have M_hi: "?M \<le> 2 powi 123" using hi up by linarith
  have "2 powi (- 100) / 2 \<le> (1 - ?u) ^ ?k * ?E"
  proof -
    have "1 / 2 * 2 powi (- 100) \<le> (1 - ?u) ^ ?k * ?E"
      using pl E_lo by (intro mult_mono) simp_all
    then show ?thesis by simp
  qed
  then have "2 powi (- 101) \<le> (1 - ?u) ^ ?k * ?E"
    by (simp only: powi_half) simp
  then have M_lo: "2 powi (- 101) \<le> ?M" using lo by linarith
  have "0 < ?M" using M_lo powi_pos [of "- 101"] by linarith
  then have mpos: "0 < m" by (cases "m = 0") simp_all
  have res': "sum_squares vs f32_zero = Finite False m e"
    using res by (simp only: f32_zero_def)
  show ?thesis
    using res' mpos m e lo hi M_lo M_hi by (intro exI conjI)
qed

lemma positive_sum_passes_guard:
  assumes "0 < m"
  shows "\<not> f32_le (Finite False m e) f32_zero"
  using assms by (simp add: f32_zero_def signed_significand_def Let_def mult_le_0_iff)

subsection \<open>The scaled vector\<close>

lemma roundoff_half: "1 / 2 \<le> 1 - unit_roundoff" "1 + unit_roundoff \<le> 2"
  by (simp_all add: unit_roundoff_def)

lemma recip_mono:
  fixes x y :: real
  assumes "0 < x" and "x \<le> y"
  shows "1 / y \<le> 1 / x"
  using assms by (simp add: frac_le)

lemma inv_norm_accurate:
  assumes m: "0 < m" "m < 2 ^ 24" and e: "- 149 \<le> e" "e \<le> 104"
    and lo: "2 powi (- 101) \<le> real m * 2 powi e"
    and hi: "real m * 2 powi e \<le> 2 powi 123"
  shows "\<exists>q e'. f32_div f32_one (f32_sqrt (Finite False m e)) = Finite False q e'
           \<and> 0 < q \<and> q < 2 ^ 24 \<and> - 149 \<le> e'
           \<and> (1 - unit_roundoff) / ((1 + unit_roundoff) * sqrt (real m * 2 powi e))
               \<le> real q * 2 powi e'
           \<and> real q * 2 powi e'
               \<le> (1 + unit_roundoff) / ((1 - unit_roundoff) * sqrt (real m * 2 powi e))
           \<and> 2 powi (- 64) \<le> real q * 2 powi e'
           \<and> real q * 2 powi e' \<le> 2 powi 53"
proof -
  let ?u = unit_roundoff
  let ?r = "sqrt (real m * 2 powi e)"
  have a: "0 < 1 - ?u" "0 < 1 + ?u"
    using roundoff_half(1) unit_roundoff_range(1) by linarith+
  from sqrt_accurate [OF m e] obtain n f
    where T: "f32_sqrt (Finite False m e) = Finite False n f"
      and n: "0 < n" "n < 2 ^ 24"
      and errT: "\<bar>real n * 2 powi f - ?r\<bar> \<le> ?r / 2 ^ 24"
    by (elim exE conjE)
  let ?t = "real n * 2 powi f"
  have errT': "\<bar>?t - ?r\<bar> \<le> ?r * ?u" using errT by (simp only: unit_roundoff_div)
  have t: "(1 - ?u) * ?r \<le> ?t" "?t \<le> (1 + ?u) * ?r"
    by (rule abs_error_bounds [OF errT'])+
  have r_lo: "2 powi (- 51) \<le> ?r"
  proof -
    have "((2::real) powi (- 51))\<^sup>2 \<le> 2 powi (- 101)"
      by (simp only: powi_double) (rule powi_mono, simp)
    then have "((2::real) powi (- 51))\<^sup>2 \<le> real m * 2 powi e" using lo by linarith
    then have "sqrt (((2::real) powi (- 51))\<^sup>2) \<le> ?r" by (rule real_sqrt_le_mono)
    then show ?thesis by (simp only: real_sqrt_abs abs_powi)
  qed
  have r_hi: "?r \<le> 2 powi 62"
  proof -
    have "(2::real) powi 123 \<le> (2 powi 62)\<^sup>2"
      by (simp only: powi_double) (rule powi_mono, simp)
    then have "real m * 2 powi e \<le> ((2::real) powi 62)\<^sup>2" using hi by linarith
    then have "?r \<le> sqrt (((2::real) powi 62)\<^sup>2)" by (rule real_sqrt_le_mono)
    then show ?thesis by (simp only: real_sqrt_abs abs_powi)
  qed
  have rpos: "0 < ?r" using r_lo powi_pos [of "- 51"] by linarith
  have t_lo: "2 powi (- 52) \<le> ?t"
  proof -
    have "1 / 2 * 2 powi (- 51) \<le> (1 - ?u) * ?r"
      using roundoff_half(1) r_lo by (intro mult_mono) simp_all
    then have "2 powi (- 51) / 2 \<le> (1 - ?u) * ?r" by simp
    then have "2 powi (- 52) \<le> (1 - ?u) * ?r" by (simp only: powi_half) simp
    then show ?thesis using t(1) by linarith
  qed
  have t_hi: "?t \<le> 2 powi 63"
  proof -
    have "(1 + ?u) * ?r \<le> 2 * 2 powi 62"
      using roundoff_half(2) r_hi rpos by (intro mult_mono) simp_all
    then have "(1 + ?u) * ?r \<le> 2 powi 63" by (simp only: powi_twice) simp
    then show ?thesis using t(2) by linarith
  qed
  have tpos: "0 < ?t" using t_lo powi_pos [of "- 52"] by linarith
  have lo': "2 powi (- 125) \<le> ?t"
  proof -
    have "(2::real) powi (- 125) \<le> 2 powi (- 52)" by (rule powi_mono) simp
    then show ?thesis using t_lo by linarith
  qed
  have hi': "?t \<le> 2 powi 126"
  proof -
    have "(2::real) powi 63 \<le> 2 powi 126" by (rule powi_mono) simp
    then show ?thesis using t_hi by linarith
  qed
  from recip_accurate [OF n lo' hi'] obtain q e'
    where I: "f32_div f32_one (Finite False n f) = Finite False q e'"
      and q: "0 < q" "q < 2 ^ 24" and e': "- 149 \<le> e'"
      and errI: "\<bar>real q * 2 powi e' - 1 / ?t\<bar> \<le> 1 / ?t / 2 ^ 24"
    by (elim exE conjE)
  let ?i = "real q * 2 powi e'"
  have errI': "\<bar>?i - 1 / ?t\<bar> \<le> 1 / ?t * ?u" using errI by (simp only: unit_roundoff_div)
  have i: "(1 - ?u) * (1 / ?t) \<le> ?i" "?i \<le> (1 + ?u) * (1 / ?t)"
    by (rule abs_error_bounds [OF errI'])+
  have inv_lo: "1 / ((1 + ?u) * ?r) \<le> 1 / ?t"
    using tpos t(2) by (rule recip_mono)
  have inv_hi: "1 / ?t \<le> 1 / ((1 - ?u) * ?r)"
    using mult_pos_pos [OF a(1) rpos] t(1) by (rule recip_mono)
  have B1: "(1 - ?u) / ((1 + ?u) * ?r) \<le> ?i"
  proof -
    have "(1 - ?u) * (1 / ((1 + ?u) * ?r)) \<le> (1 - ?u) * (1 / ?t)"
      using inv_lo a(1) by (intro mult_left_mono) simp_all
    then show ?thesis using i(1) by simp
  qed
  have B2: "?i \<le> (1 + ?u) / ((1 - ?u) * ?r)"
  proof -
    have "(1 + ?u) * (1 / ?t) \<le> (1 + ?u) * (1 / ((1 - ?u) * ?r))"
      using inv_hi a(2) by (intro mult_left_mono) simp_all
    then show ?thesis using i(2) by simp
  qed
  have it_lo: "2 powi (- 63) \<le> 1 / ?t"
  proof -
    have "1 / 2 powi 63 \<le> 1 / ?t"
      using tpos t_hi by (rule recip_mono)
    moreover have "1 / 2 powi 63 = (2::real) powi (- 63)"
      by (simp only: power_int_minus inverse_eq_divide)
    ultimately show ?thesis by (simp only:)
  qed
  have it_hi: "1 / ?t \<le> 2 powi 52"
  proof -
    have "1 / ?t \<le> 1 / 2 powi (- 52)"
      using powi_pos t_lo by (rule recip_mono)
    moreover have "1 / 2 powi (- 52) = (2::real) powi 52"
      by (simp only: power_int_minus inverse_eq_divide divide_divide_eq_right)
    ultimately show ?thesis by (simp only:)
  qed
  have B3: "2 powi (- 64) \<le> ?i"
  proof -
    have "1 / 2 * 2 powi (- 63) \<le> (1 - ?u) * (1 / ?t)"
      using roundoff_half(1) it_lo by (intro mult_mono) simp_all
    then have "2 powi (- 63) / 2 \<le> (1 - ?u) * (1 / ?t)" by simp
    then have "2 powi (- 64) \<le> (1 - ?u) * (1 / ?t)" by (simp only: powi_half) simp
    then show ?thesis using i(1) by linarith
  qed
  have B4: "?i \<le> 2 powi 53"
  proof -
    have "0 \<le> 1 / ?t" using tpos by simp
    then have "(1 + ?u) * (1 / ?t) \<le> 2 * 2 powi 52"
      using roundoff_half(2) it_hi by (intro mult_mono) simp_all
    then have "(1 + ?u) * (1 / ?t) \<le> 2 powi 53" by (simp only: powi_twice) simp
    then show ?thesis using i(2) by linarith
  qed
  have "f32_div f32_one (f32_sqrt (Finite False m e)) = Finite False q e'"
    by (simp only: T I)
  then show ?thesis using q e' B1 B2 B3 B4 by (intro exI conjI)
qed

lemma square_mono:
  fixes a b :: real
  assumes "0 \<le> a" and "a \<le> b"
  shows "a * a \<le> b * b"
  using assms by (intro mult_mono) simp_all

lemma scale_accurate:
  assumes ov: "ordinary v" and q: "0 < q"
    and ilo: "2 powi (- 64) \<le> real q * 2 powi e"
    and ihi: "real q * 2 powi e \<le> 2 powi 53"
  shows "(\<exists>s' q' e'. f32_mul v (Finite False q e) = Finite s' q' e')
       \<and> (1 - unit_roundoff)\<^sup>2
             * (f32_real v * f32_real v * ((real q * 2 powi e) * (real q * 2 powi e)))
           \<le> f32_real (f32_mul v (Finite False q e)) * f32_real (f32_mul v (Finite False q e))
       \<and> f32_real (f32_mul v (Finite False q e)) * f32_real (f32_mul v (Finite False q e))
           \<le> (1 + unit_roundoff)\<^sup>2
                * (f32_real v * f32_real v * ((real q * 2 powi e) * (real q * 2 powi e)))"
proof -
  let ?u = unit_roundoff
  let ?i = "real q * 2 powi e"
  obtain s m ev where v: "v = Finite s m ev"
    using ov by (cases v) (simp_all add: ordinary_def)
  let ?x = "real m * 2 powi ev"
  have V: "f32_real v * f32_real v = ?x * ?x"
    unfolding v by (rule f32_real_square)
  show ?thesis
  proof (cases "m = 0")
    case True
    then have "f32_mul v (Finite False q e) = Finite s 0 (- 149)"
      by (simp add: v round_f32_def)
    moreover have "f32_real (Finite s 0 (- 149)) = 0" "f32_real v = 0"
      using True by (simp_all add: v f32_real_def signed_significand_def)
    ultimately show ?thesis by simp
  next
    case False
    note b = ordinary_magnitude [OF ov [unfolded v] False]
    have ipos: "0 < ?i" using q by simp
    have lo: "2 powi (- 126) \<le> ?x * ?i"
    proof -
      have "(2::real) powi (- 126) \<le> 2 powi (- 114)" by (rule powi_mono) simp
      also have "\<dots> = 2 powi (- 50) * 2 powi (- 64)" by (simp only: powi_sum) simp
      also have "\<dots> \<le> ?x * ?i"
        using b(2) ilo by (intro mult_mono) simp_all
      finally show ?thesis .
    qed
    have hi: "?x * ?i < 2 powi 126"
    proof -
      have "?x * ?i < 2 powi 50 * ?i"
        using b(3) ipos by (rule mult_strict_right_mono)
      also have "\<dots> \<le> 2 powi 50 * 2 powi 53"
        using ihi by (intro mult_left_mono) simp_all
      also have "\<dots> = 2 powi 103" by (simp only: powi_sum) simp
      also have "\<dots> \<le> 2 powi 126" by (rule powi_mono) simp
      finally show ?thesis .
    qed
    from mul_accurate [OF b(1) q lo hi, of s False] obtain q' e'
      where res: "f32_mul (Finite s m ev) (Finite False q e) = Finite (s \<noteq> False) q' e'"
        and err: "\<bar>real q' * 2 powi e' - ?x * ?i\<bar> \<le> ?x * ?i / 2 ^ 24"
      by (elim exE conjE)
    let ?Q = "real q' * 2 powi e'"
    have err': "\<bar>?Q - ?x * ?i\<bar> \<le> ?x * ?i * ?u" using err by (simp only: unit_roundoff_div)
    have Q: "(1 - ?u) * (?x * ?i) \<le> ?Q" "?Q \<le> (1 + ?u) * (?x * ?i)"
      by (rule abs_error_bounds [OF err'])+
    have xi: "0 \<le> ?x * ?i" by simp
    have low0: "0 \<le> (1 - ?u) * (?x * ?i)"
      using unit_roundoff_range(2) xi by (intro mult_nonneg_nonneg) simp_all
    have Q0: "0 \<le> ?Q" by simp
    have out: "f32_real (f32_mul v (Finite False q e)) * f32_real (f32_mul v (Finite False q e))
                 = ?Q * ?Q"
      unfolding v res by (rule f32_real_square)
    have L: "((1 - ?u) * (?x * ?i)) * ((1 - ?u) * (?x * ?i)) \<le> ?Q * ?Q"
      using low0 Q(1) by (rule square_mono)
    have U: "?Q * ?Q \<le> ((1 + ?u) * (?x * ?i)) * ((1 + ?u) * (?x * ?i))"
      using Q0 Q(2) by (rule square_mono)
    have eqL: "(1 - ?u)\<^sup>2 * (f32_real v * f32_real v * (?i * ?i))
                 = ((1 - ?u) * (?x * ?i)) * ((1 - ?u) * (?x * ?i))"
      by (simp only: V power2_eq_square mult_ac)
    have eqU: "(1 + ?u)\<^sup>2 * (f32_real v * f32_real v * (?i * ?i))
                 = ((1 + ?u) * (?x * ?i)) * ((1 + ?u) * (?x * ?i))"
      by (simp only: V power2_eq_square mult_ac)
    have fin: "\<exists>s' q' e'. f32_mul v (Finite False q e) = Finite s' q' e'"
      using res by (simp only: v) (intro exI, rule refl)
    show ?thesis
      using fin L U by (simp only: eqL eqU out)
  qed
qed

lemma scale_all_accurate:
  assumes ord: "\<forall>v \<in> set vs. ordinary v" and q: "0 < q"
    and ilo: "2 powi (- 64) \<le> real q * 2 powi e"
    and ihi: "real q * 2 powi e \<le> 2 powi 53"
  shows "(\<forall>x \<in> set (scale_all vs (Finite False q e)). \<exists>s' q' e'. x = Finite s' q' e')
       \<and> (1 - unit_roundoff)\<^sup>2
             * (real_sum_squares vs * ((real q * 2 powi e) * (real q * 2 powi e)))
           \<le> real_sum_squares (scale_all vs (Finite False q e))
       \<and> real_sum_squares (scale_all vs (Finite False q e))
           \<le> (1 + unit_roundoff)\<^sup>2
                * (real_sum_squares vs * ((real q * 2 powi e) * (real q * 2 powi e)))"
  using ord
proof (induction vs)
  case Nil
  then show ?case by simp
next
  case (Cons v vs)
  have ov: "ordinary v" using Cons.prems by simp
  have ord': "\<forall>v \<in> set vs. ordinary v" using Cons.prems by simp
  note s = scale_accurate [OF ov q ilo ihi]
  note ih = Cons.IH [OF ord']
  have fin: "\<forall>x \<in> set (scale_all (v # vs) (Finite False q e)). \<exists>s' q' e'. x = Finite s' q' e'"
    using s ih by simp
  have L: "(1 - unit_roundoff)\<^sup>2
             * (real_sum_squares (v # vs) * ((real q * 2 powi e) * (real q * 2 powi e)))
           \<le> real_sum_squares (scale_all (v # vs) (Finite False q e))"
    using conjunct1 [OF conjunct2 [OF s]] conjunct1 [OF conjunct2 [OF ih]]
    by (simp only: real_sum_squares.simps scale_all.simps distrib_left distrib_right)
  have U: "real_sum_squares (scale_all (v # vs) (Finite False q e))
           \<le> (1 + unit_roundoff)\<^sup>2
                * (real_sum_squares (v # vs) * ((real q * 2 powi e) * (real q * 2 powi e)))"
    using conjunct2 [OF conjunct2 [OF s]] conjunct2 [OF conjunct2 [OF ih]]
    by (simp only: real_sum_squares.simps scale_all.simps distrib_left distrib_right)
  show ?case using fin L U by (intro conjI)
qed

lemma norm_bound_algebra:
  fixes a b M E i r R Pl Pu :: real
  assumes a: "0 < a" and b: "0 < b" and M: "0 < M" and Pl: "0 < Pl" and Pu: "0 < Pu"
    and lo: "Pl * E \<le> M" and hi: "M \<le> Pu * E"
    and r: "r * r = M" and rpos: "0 < r"
    and B1: "a / (b * r) \<le> i" and B2: "i \<le> b / (a * r)"
    and L: "a\<^sup>2 * (E * (i * i)) \<le> R" and U: "R \<le> b\<^sup>2 * (E * (i * i))"
  shows "a ^ 4 / (b\<^sup>2 * Pu) \<le> R" and "R \<le> b ^ 4 / (a\<^sup>2 * Pl)"
proof -
  have E_lo: "M / Pu \<le> E" using hi Pu by (simp add: field_simps)
  have E_hi: "E \<le> M / Pl" using lo Pl by (simp add: field_simps)
  have E0: "0 \<le> E" using E_lo M Pu by (meson divide_pos_pos less_imp_le order_trans)
  have low0: "0 \<le> a / (b * r)" using a b rpos by simp
  have i0: "0 \<le> i" using low0 B1 by linarith
  have "(a / (b * r)) * (a / (b * r)) \<le> i * i" using low0 B1 by (rule square_mono)
  moreover have "(a / (b * r)) * (a / (b * r)) = a\<^sup>2 / (b\<^sup>2 * (r * r))"
    by (simp add: power2_eq_square)
  ultimately have i_lo: "a\<^sup>2 / (b\<^sup>2 * M) \<le> i * i" by (simp only: r)
  have "i * i \<le> (b / (a * r)) * (b / (a * r))" using i0 B2 by (rule square_mono)
  moreover have "(b / (a * r)) * (b / (a * r)) = b\<^sup>2 / (a\<^sup>2 * (r * r))"
    by (simp add: power2_eq_square)
  ultimately have i_hi: "i * i \<le> b\<^sup>2 / (a\<^sup>2 * M)" by (simp only: r)
  have n1: "0 \<le> M / Pu" using M Pu by simp
  have n2: "0 \<le> a\<^sup>2 / (b\<^sup>2 * M)" using a b M by simp
  have n3: "0 \<le> i * i" by simp
  have "(M / Pu) * (a\<^sup>2 / (b\<^sup>2 * M)) \<le> E * (i * i)"
    using E_lo i_lo n1 n2 by (rule mult_mono')
  then have "a\<^sup>2 * ((M / Pu) * (a\<^sup>2 / (b\<^sup>2 * M))) \<le> a\<^sup>2 * (E * (i * i))"
    by (rule mult_left_mono) simp
  moreover have "a\<^sup>2 * ((M / Pu) * (a\<^sup>2 / (b\<^sup>2 * M))) = a ^ 4 / (b\<^sup>2 * Pu)"
    using M by (simp add: power2_eq_square power4_eq_xxxx mult_ac)
  ultimately show "a ^ 4 / (b\<^sup>2 * Pu) \<le> R" using L by linarith
  have "E * (i * i) \<le> (M / Pl) * (b\<^sup>2 / (a\<^sup>2 * M))"
    using E_hi i_hi E0 n3 by (rule mult_mono')
  then have "b\<^sup>2 * (E * (i * i)) \<le> b\<^sup>2 * ((M / Pl) * (b\<^sup>2 / (a\<^sup>2 * M)))"
    by (rule mult_left_mono) simp
  moreover have "b\<^sup>2 * ((M / Pl) * (b\<^sup>2 / (a\<^sup>2 * M))) = b ^ 4 / (a\<^sup>2 * Pl)"
    using M by (simp add: power2_eq_square power4_eq_xxxx mult_ac)
  ultimately show "R \<le> b ^ 4 / (a\<^sup>2 * Pl)" using U by linarith
qed

lemma normalize_l2_unit_norm:
  assumes ord: "\<forall>v \<in> set vs. ordinary v"
    and nz: "\<exists>v \<in> set vs. \<not> is_zero_f32 v"
    and len: "length vs \<le> 2 ^ 22"
  shows "(\<forall>x \<in> set (normalize_l2 vs). \<exists>s m e. x = Finite s m e)
       \<and> (1 - unit_roundoff) ^ 4 / (1 + unit_roundoff) ^ (2 * length vs + 2)
           \<le> real_sum_squares (normalize_l2 vs)
       \<and> real_sum_squares (normalize_l2 vs)
           \<le> (1 + unit_roundoff) ^ 4 / (1 - unit_roundoff) ^ (2 * length vs + 2)"
proof -
  let ?u = unit_roundoff
  let ?E = "real_sum_squares vs"
  let ?k = "2 * length vs"
  have a: "0 < 1 - ?u" "0 < 1 + ?u"
    using roundoff_half(1) unit_roundoff_range(1) by linarith+
  from sum_squares_in_range [OF ord nz len] obtain m e
    where S: "sum_squares vs f32_zero = Finite False m e"
      and m: "0 < m" "m < 2 ^ 24" and e: "- 149 \<le> e" "e \<le> 104"
      and lo: "(1 - ?u) ^ ?k * ?E \<le> real m * 2 powi e"
      and hi: "real m * 2 powi e \<le> (1 + ?u) ^ ?k * ?E"
      and M_lo: "2 powi (- 101) \<le> real m * 2 powi e"
      and M_hi: "real m * 2 powi e \<le> 2 powi 123"
    by (elim exE conjE)
  let ?M = "real m * 2 powi e"
  have guard: "\<not> f32_le (Finite False m e) f32_zero"
    using m(1) by (rule positive_sum_passes_guard)
  from inv_norm_accurate [OF m e M_lo M_hi] obtain q e'
    where I: "f32_div f32_one (f32_sqrt (Finite False m e)) = Finite False q e'"
      and q: "0 < q"
      and B1: "(1 - ?u) / ((1 + ?u) * sqrt ?M) \<le> real q * 2 powi e'"
      and B2: "real q * 2 powi e' \<le> (1 + ?u) / ((1 - ?u) * sqrt ?M)"
      and B3: "2 powi (- 64) \<le> real q * 2 powi e'"
      and B4: "real q * 2 powi e' \<le> 2 powi 53"
    by (elim exE conjE)
  have out: "normalize_l2 vs = scale_all vs (Finite False q e')"
    using guard by (simp only: normalize_l2_def Let_def S I if_False)
  note sc = scale_all_accurate [OF ord q B3 B4]
  let ?i = "real q * 2 powi e'"
  let ?R = "real_sum_squares (scale_all vs (Finite False q e'))"
  have L: "(1 - ?u)\<^sup>2 * (?E * (?i * ?i)) \<le> ?R" and U: "?R \<le> (1 + ?u)\<^sup>2 * (?E * (?i * ?i))"
    using sc by (simp_all only:)
  have Mpos: "0 < ?M" using m(1) by simp
  have r: "sqrt ?M * sqrt ?M = ?M" using Mpos by simp
  have rpos: "0 < sqrt ?M" using Mpos by simp
  have Pl: "0 < (1 - ?u) ^ ?k" using a(1) by simp
  have Pu: "0 < (1 + ?u) ^ ?k" using a(2) by simp
  note alg = norm_bound_algebra [OF a Mpos Pl Pu lo hi r rpos B1 B2 L U]
  have e1: "(1 + ?u)\<^sup>2 * (1 + ?u) ^ ?k = (1 + ?u) ^ (?k + 2)"
    by (simp only: power_add mult.commute)
  have e2: "(1 - ?u)\<^sup>2 * (1 - ?u) ^ ?k = (1 - ?u) ^ (?k + 2)"
    by (simp only: power_add mult.commute)
  have fin: "\<forall>x \<in> set (normalize_l2 vs). \<exists>s m e. x = Finite s m e"
    using conjunct1 [OF sc] by (simp only: out)
  have lower: "(1 - ?u) ^ 4 / (1 + ?u) ^ (?k + 2) \<le> real_sum_squares (normalize_l2 vs)"
    using alg(1) by (simp only: e1 out)
  have upper: "real_sum_squares (normalize_l2 vs) \<le> (1 + ?u) ^ 4 / (1 - ?u) ^ (?k + 2)"
    using alg(2) by (simp only: e2 out)
  show ?thesis using fin lower upper by (intro conjI)
qed

lemma pow_le_recip_pow:
  fixes a b :: real
  assumes "0 \<le> a" and "0 < b" and "a * b \<le> 1"
  shows "a ^ j \<le> 1 / b ^ j"
proof -
  have "0 \<le> a * b" using assms(1,2) by simp
  then have "(a * b) ^ j \<le> 1" using assms(3) by (rule power_le_one)
  then have "a ^ j * b ^ j \<le> 1" by (simp only: power_mult_distrib)
  moreover have "0 < b ^ j" using assms(2) by simp
  ultimately show ?thesis by (simp add: pos_le_divide_eq)
qed

lemma recip_near_one:
  fixes x :: real
  assumes "0 \<le> x" and "x \<le> 1 / 2"
  shows "1 / (1 - x) \<le> 1 + 2 * x"
proof -
  have "0 \<le> x * (1 - 2 * x)" using assms by (intro mult_nonneg_nonneg) simp_all
  then have "1 \<le> (1 + 2 * x) * (1 - x)" by (simp add: algebra_simps)
  moreover have "0 < 1 - x" using assms by simp
  ultimately show ?thesis by (simp add: pos_divide_le_eq)
qed

lemma tight_to_simple:
  fixes u :: real
  assumes u: "0 \<le> u" "u \<le> 1 / 2" and k: "real (2 * n + 6) * u \<le> 1 / 2"
  shows "1 - real (2 * n + 6) * u \<le> (1 - u) ^ 4 / (1 + u) ^ (2 * n + 2)"
    and "(1 + u) ^ 4 / (1 - u) ^ (2 * n + 2) \<le> 1 + 2 * (real (2 * n + 6) * u)"
proof -
  let ?a = "1 - u" and ?b = "1 + u" and ?k = "2 * n + 6"
  have a: "0 < ?a" "0 \<le> ?a" and b: "0 < ?b" "0 \<le> ?b" using u by simp_all
  have "?a * ?b = 1 - u * u" by (simp add: algebra_simps)
  then have ab: "?a * ?b \<le> 1" "?b * ?a \<le> 1" by (simp_all add: mult.commute)
  have bern: "1 - real ?k * u \<le> ?a ^ ?k"
  proof -
    have "1 + real ?k * (- u) \<le> (1 + (- u)) ^ ?k"
      using u(2) by (intro Bernoulli_inequality) simp
    then show ?thesis by simp
  qed
  have kk: "2 * n + 6 = 4 + (2 * n + 2)" by simp
  have "?a ^ ?k = ?a ^ 4 * ?a ^ (2 * n + 2)"
    by (subst kk) (rule power_add)
  also have "\<dots> \<le> ?a ^ 4 * (1 / ?b ^ (2 * n + 2))"
  proof (rule mult_left_mono)
    show "?a ^ (2 * n + 2) \<le> 1 / ?b ^ (2 * n + 2)"
      using a(2) b(1) ab(1) by (rule pow_le_recip_pow)
    show "0 \<le> ?a ^ 4" using a(2) by (rule zero_le_power)
  qed
  finally have "?a ^ ?k \<le> ?a ^ 4 / ?b ^ (2 * n + 2)" by simp
  then show "1 - real ?k * u \<le> ?a ^ 4 / ?b ^ (2 * n + 2)" using bern by linarith
  have pos: "0 < 1 - real ?k * u" using k by linarith
  have ak: "0 < ?a ^ ?k" using a(1) by simp
  have "?b ^ 4 / ?a ^ (2 * n + 2) \<le> (1 / ?a ^ 4) / ?a ^ (2 * n + 2)"
  proof (rule divide_right_mono)
    show "?b ^ 4 \<le> 1 / ?a ^ 4"
      using b(2) a(1) ab(2) by (rule pow_le_recip_pow)
    show "0 \<le> ?a ^ (2 * n + 2)" using a(2) by (rule zero_le_power)
  qed
  also have "\<dots> = 1 / (?a ^ 4 * ?a ^ (2 * n + 2))" by simp
  also have "\<dots> = 1 / ?a ^ ?k"
    by (subst kk) (simp only: power_add)
  also have "\<dots> \<le> 1 / (1 - real ?k * u)"
    using pos bern by (rule recip_mono)
  also have "\<dots> \<le> 1 + 2 * (real ?k * u)"
    using k u(1) by (intro recip_near_one) simp_all
  finally show "?b ^ 4 / ?a ^ (2 * n + 2) \<le> 1 + 2 * (real ?k * u)" .
qed

lemma sqrt_near_one:
  fixes x :: real
  assumes "0 \<le> x"
  shows "\<bar>sqrt x - 1\<bar> \<le> \<bar>x - 1\<bar>"
proof (cases "1 \<le> x")
  case True
  then have s: "1 \<le> sqrt x" by simp
  then have "sqrt x * 1 \<le> sqrt x * sqrt x" by (intro mult_left_mono) simp_all
  then have "sqrt x \<le> x" using assms by simp
  then show ?thesis using s True by simp
next
  case False
  then have s: "sqrt x \<le> 1" by simp
  have s0: "0 \<le> sqrt x" using assms by simp
  have "sqrt x * sqrt x \<le> sqrt x * 1" using s s0 by (rule mult_left_mono)
  then have "x \<le> sqrt x" using assms by simp
  then show ?thesis using s False by simp
qed

lemma normalize_l2_norm_near_one:
  assumes ord: "\<forall>v \<in> set vs. ordinary v"
    and nz: "\<exists>v \<in> set vs. \<not> is_zero_f32 v"
    and len: "length vs \<le> 2 ^ 21"
  shows "(\<forall>x \<in> set (normalize_l2 vs). \<exists>s m e. x = Finite s m e)
       \<and> \<bar>real_sum_squares (normalize_l2 vs) - 1\<bar>
           \<le> real (4 * length vs + 12) * unit_roundoff
       \<and> \<bar>sqrt (real_sum_squares (normalize_l2 vs)) - 1\<bar>
           \<le> real (4 * length vs + 12) * unit_roundoff"
proof -
  let ?u = unit_roundoff
  let ?n = "length vs"
  let ?R = "real_sum_squares (normalize_l2 vs)"
  have len': "?n \<le> 2 ^ 22" using len by simp
  note t = normalize_l2_unit_norm [OF ord nz len']
  have fin: "\<forall>x \<in> set (normalize_l2 vs). \<exists>s m e. x = Finite s m e"
    by (rule conjunct1 [OF t])
  have lo: "(1 - ?u) ^ 4 / (1 + ?u) ^ (2 * ?n + 2) \<le> ?R"
    by (rule conjunct1 [OF conjunct2 [OF t]])
  have hi: "?R \<le> (1 + ?u) ^ 4 / (1 - ?u) ^ (2 * ?n + 2)"
    by (rule conjunct2 [OF conjunct2 [OF t]])
  have "2 * ?n + 6 \<le> 2 ^ 23" using len by simp
  then have "real (2 * ?n + 6) \<le> real (2 ^ 23)" by (rule of_nat_mono)
  then have "real (2 * ?n + 6) * ?u \<le> real (2 ^ 23) * ?u"
    using unit_roundoff_range(1) by (rule mult_right_mono)
  also have "\<dots> = 1 / 2" by (simp add: unit_roundoff_def)
  finally have k: "real (2 * ?n + 6) * ?u \<le> 1 / 2" .
  have u2: "?u \<le> 1 / 2" by (simp add: unit_roundoff_def)
  note s = tight_to_simple [OF unit_roundoff_range(1) u2 k]
  have k0: "0 \<le> real (2 * ?n + 6) * ?u"
    using unit_roundoff_range(1) by (intro mult_nonneg_nonneg) simp_all
  have eq: "real (4 * ?n + 12) * ?u = 2 * (real (2 * ?n + 6) * ?u)" by simp
  have "1 - 2 * (real (2 * ?n + 6) * ?u) \<le> ?R" using s(1) lo k0 by linarith
  moreover have "?R \<le> 1 + 2 * (real (2 * ?n + 6) * ?u)" using s(2) hi by linarith
  ultimately have near: "\<bar>?R - 1\<bar> \<le> real (4 * ?n + 12) * ?u"
    by (simp only: eq)
  have "\<bar>sqrt ?R - 1\<bar> \<le> \<bar>?R - 1\<bar>"
    by (rule sqrt_near_one) (rule real_sum_squares_nonneg)
  then have norm: "\<bar>sqrt ?R - 1\<bar> \<le> real (4 * ?n + 12) * ?u" using near by linarith
  show ?thesis using fin near norm by (intro conjI)
qed

section \<open>The vector nativeEmbed returns\<close>

lemma embed_tokens_vector:
  assumes "embed_tokens L new_array_ok w state c tokens = Inr (Some out, w')"
  shows "\<exists>c2 raw. heap_ctxs w' (ctx state) = Some c2
           \<and> llama_get_embeddings_seq L c2 0 = Some raw
           \<and> 0 \<le> n_embd state \<and> nat (n_embd state) \<le> length raw
           \<and> out = normalize_l2 (take (nat (n_embd state)) raw)"
  using assms
  by (auto simp: embed_tokens_def Let_def emit_def log_error_def copy_embedding_def
      split: prod.splits option.splits sum.splits if_splits)

lemma nativeEmbed_vector:
  assumes "nativeEmbed L new_array_ok w handle text = Inr (Some out, w')"
  shows "\<exists>state c tokens. heap_states w handle = Some state
           \<and> embed_tokens L new_array_ok w state c tokens = Inr (Some out, w')"
  using assms
  by (auto simp: nativeEmbed_def split: if_splits option.splits sum.splits)

lemma embed_demo_abc_raw:
  "\<exists>w'. nativeEmbed (demo_api gguf_only counting_emb) True demo_world 1 (Some ''abc'')
          = Inr (Some [f32_of_ratio 3 5, f32_of_ratio 4 5], w')
        \<and> heap_ctxs w' 3 = Some ([2, 2, 2], Some [f32_of_nat 3, f32_of_nat 4])"
  by (simp add: embed_eval counting_emb_def normalize_l2_def f32_eval)

text \<open>
  C1, as the code has it. An array that \<open>nativeEmbed\<close> returns has exactly
  \<open>n_embd\<close> elements and is \<open>normalize_l2\<close> of the first \<open>n_embd\<close> floats of the
  pooled embedding the context holds: that copy unchanged when its single-precision sum
  of squares is \<open>\<le> 0\<close>, which is so for every all-zero vector, and otherwise every
  element of the copy multiplied by the single-precision \<open>1.0f / sqrt(sum)\<close>. When
  every element of the copy is ordinary (zero, or a normal number of magnitude in
  \<open>[2^-50, 2^50)\<close>), one of them is not zero and \<open>n_embd \<le> 2^21\<close>, every returned
  element is finite and both the sum of squares and the L2 norm of the returned vector
  are within \<open>(4 * n_embd + 12) * 2^-24\<close> of \<open>1\<close>.
\<close>

theorem embed_returns_normalized_copy:
  assumes "nativeEmbed L new_array_ok w handle text = Inr (Some out, w')"
  shows "\<exists>state c2 raw.
           heap_states w handle = Some state
           \<and> heap_ctxs w' (ctx state) = Some c2
           \<and> llama_get_embeddings_seq L c2 0 = Some raw
           \<and> int (length out) = n_embd state
           \<and> out = normalize_l2 (take (nat (n_embd state)) raw)
           \<and> (f32_le (sum_squares (take (nat (n_embd state)) raw) f32_zero) f32_zero
                \<longrightarrow> out = take (nat (n_embd state)) raw)
           \<and> (\<not> f32_le (sum_squares (take (nat (n_embd state)) raw) f32_zero) f32_zero
                \<longrightarrow> out = map (\<lambda>v. f32_mul v
                                   (f32_div f32_one
                                      (f32_sqrt (sum_squares (take (nat (n_embd state)) raw)
                                                   f32_zero))))
                             (take (nat (n_embd state)) raw))
           \<and> ((\<forall>v \<in> set (take (nat (n_embd state)) raw). is_zero_f32 v)
                \<longrightarrow> out = take (nat (n_embd state)) raw)
           \<and> ((\<forall>v \<in> set (take (nat (n_embd state)) raw). ordinary v)
                \<and> (\<exists>v \<in> set (take (nat (n_embd state)) raw). \<not> is_zero_f32 v)
                \<and> n_embd state \<le> 2 ^ 21
                \<longrightarrow> (\<forall>x \<in> set out. \<exists>s m e. x = Finite s m e)
                  \<and> \<bar>real_sum_squares out - 1\<bar>
                      \<le> real (4 * length out + 12) * unit_roundoff
                  \<and> \<bar>sqrt (real_sum_squares out) - 1\<bar>
                      \<le> real (4 * length out + 12) * unit_roundoff)"
proof -
  from nativeEmbed_vector [OF assms] obtain state c tokens
    where st: "heap_states w handle = Some state"
      and run: "embed_tokens L new_array_ok w state c tokens = Inr (Some out, w')"
    by blast
  from embed_tokens_vector [OF run] obtain c2 raw
    where c2: "heap_ctxs w' (ctx state) = Some c2"
      and raw: "llama_get_embeddings_seq L c2 0 = Some raw"
      and n: "0 \<le> n_embd state" "nat (n_embd state) \<le> length raw"
      and out: "out = normalize_l2 (take (nat (n_embd state)) raw)"
    by blast
  let ?copy = "take (nat (n_embd state)) raw"
  have len: "int (length out) = n_embd state"
    using n out by simp
  have unchanged: "f32_le (sum_squares ?copy f32_zero) f32_zero \<longrightarrow> out = ?copy"
    using out by (simp add: normalize_l2_def)
  have scaled: "\<not> f32_le (sum_squares ?copy f32_zero) f32_zero \<longrightarrow>
      out = map (\<lambda>v. f32_mul v (f32_div f32_one (f32_sqrt (sum_squares ?copy f32_zero)))) ?copy"
    using out by (simp add: normalize_l2_def Let_def scale_all_map)
  have zeros: "(\<forall>v \<in> set ?copy. is_zero_f32 v) \<longrightarrow> out = ?copy"
    using out normalize_l2_zeros [of ?copy] by simp
  have unit: "(\<forall>v \<in> set ?copy. ordinary v) \<and> (\<exists>v \<in> set ?copy. \<not> is_zero_f32 v)
                \<and> n_embd state \<le> 2 ^ 21
      \<longrightarrow> (\<forall>x \<in> set out. \<exists>s m e. x = Finite s m e)
        \<and> \<bar>real_sum_squares out - 1\<bar> \<le> real (4 * length out + 12) * unit_roundoff
        \<and> \<bar>sqrt (real_sum_squares out) - 1\<bar> \<le> real (4 * length out + 12) * unit_roundoff"
  proof (intro impI, elim conjE)
    assume ord: "\<forall>v \<in> set ?copy. ordinary v"
      and nz: "\<exists>v \<in> set ?copy. \<not> is_zero_f32 v"
      and small: "n_embd state \<le> 2 ^ 21"
    have lc: "length ?copy = nat (n_embd state)" using n(2) by simp
    have "nat (n_embd state) \<le> nat (2 ^ 21)" using small by (rule nat_mono)
    then have bound: "length ?copy \<le> 2 ^ 21" by (simp add: lc)
    note near = normalize_l2_norm_near_one [OF ord nz bound]
    show "(\<forall>x \<in> set out. \<exists>s m e. x = Finite s m e)
        \<and> \<bar>real_sum_squares out - 1\<bar> \<le> real (4 * length out + 12) * unit_roundoff
        \<and> \<bar>sqrt (real_sum_squares out) - 1\<bar> \<le> real (4 * length out + 12) * unit_roundoff"
      unfolding out length_normalize_l2 by (rule near)
  qed
  show ?thesis
    using st c2 raw len out unchanged scaled zeros unit by (intro exI conjI)
qed

theorem embed_returns_normalized_copy_witness:
  "\<exists>w'. nativeEmbed (demo_api gguf_only counting_emb) True demo_world 1 (Some ''abc'')
           = Inr (Some [f32_of_ratio 3 5, f32_of_ratio 4 5], w')
        \<and> int (length [f32_of_ratio 3 5, f32_of_ratio 4 5])
            = n_embd \<lparr>model = 2, ctx = 3, n_embd = 2, n_ctx = 4\<rparr>
        \<and> (\<exists>c2. heap_ctxs w' 3 = Some c2
              \<and> llama_get_embeddings_seq (demo_api gguf_only counting_emb) c2 0
                  = Some [f32_of_nat 3, f32_of_nat 4]
              \<and> [f32_of_ratio 3 5, f32_of_ratio 4 5]
                  = normalize_l2 (take 2 [f32_of_nat 3, f32_of_nat 4]))
        \<and> ordinary (f32_of_nat 3) \<and> ordinary (f32_of_nat 4) \<and> \<not> is_zero_f32 (f32_of_nat 3)
        \<and> \<bar>real_sum_squares [f32_of_ratio 3 5, f32_of_ratio 4 5] - 1\<bar> \<le> 20 * unit_roundoff
        \<and> \<bar>sqrt (real_sum_squares [f32_of_ratio 3 5, f32_of_ratio 4 5]) - 1\<bar>
            \<le> 20 * unit_roundoff"
proof -
  let ?L = "demo_api gguf_only counting_emb"
  let ?out = "[f32_of_ratio 3 5, f32_of_ratio 4 5]"
  let ?raw = "[f32_of_nat 3, f32_of_nat 4]"
  obtain w' where run: "nativeEmbed ?L True demo_world 1 (Some ''abc'') = Inr (Some ?out, w')"
    and mem: "heap_ctxs w' 3 = Some ([2, 2, 2], Some ?raw)"
    using embed_demo_abc_raw by blast
  have live: "heap_states demo_world 1 = Some \<lparr>model = 2, ctx = 3, n_embd = 2, n_ctx = 4\<rparr>"
    by (simp add: demo_world_def)
  have o: "ordinary (f32_of_nat 3)" "ordinary (f32_of_nat 4)" "\<not> is_zero_f32 (f32_of_nat 3)"
    by (simp_all add: f32_eval ordinary_def is_zero_f32_def)
  from embed_returns_normalized_copy [OF run] obtain state c2 raw
    where st: "heap_states demo_world 1 = Some state"
      and c2: "heap_ctxs w' (ctx state) = Some c2"
      and raw: "llama_get_embeddings_seq ?L c2 0 = Some raw"
      and copy: "?out = normalize_l2 (take (nat (n_embd state)) raw)"
      and unit: "(\<forall>v \<in> set (take (nat (n_embd state)) raw). ordinary v)
                 \<and> (\<exists>v \<in> set (take (nat (n_embd state)) raw). \<not> is_zero_f32 v)
                 \<and> n_embd state \<le> 2 ^ 21
               \<longrightarrow> (\<forall>x \<in> set ?out. \<exists>s m e. x = Finite s m e)
                 \<and> \<bar>real_sum_squares ?out - 1\<bar> \<le> real (4 * length ?out + 12) * unit_roundoff
                 \<and> \<bar>sqrt (real_sum_squares ?out) - 1\<bar>
                     \<le> real (4 * length ?out + 12) * unit_roundoff"
    by (elim exE conjE)
  have state: "state = \<lparr>model = 2, ctx = 3, n_embd = 2, n_ctx = 4\<rparr>"
    using st live by simp
  have c2': "c2 = ([2, 2, 2], Some ?raw)"
    using c2 mem by (simp add: state)
  have r: "raw = ?raw" using raw by (simp add: c2' demo_api_def)
  have hyp: "(\<forall>v \<in> set (take (nat (n_embd state)) raw). ordinary v)
               \<and> (\<exists>v \<in> set (take (nat (n_embd state)) raw). \<not> is_zero_f32 v)
               \<and> n_embd state \<le> 2 ^ 21"
    using o by (simp add: r state)
  have near: "\<bar>real_sum_squares ?out - 1\<bar> \<le> 20 * unit_roundoff"
    "\<bar>sqrt (real_sum_squares ?out) - 1\<bar> \<le> 20 * unit_roundoff"
    using unit hyp by simp_all
  have seq: "llama_get_embeddings_seq ?L ([2, 2, 2], Some ?raw) 0 = Some ?raw"
    using raw r c2' by simp
  have cp: "?out = normalize_l2 (take 2 ?raw)" using copy r state by simp
  have len: "int (length ?out) = n_embd \<lparr>model = 2, ctx = 3, n_embd = 2, n_ctx = 4\<rparr>"
    by simp
  show ?thesis
    using run mem seq cp len o near by blast
qed

text \<open>
  The claim as stated fails where single precision runs out of range. The pooled vector
  \<open>[2^-100, 0]\<close> is not all-zero, but its squares underflow to zero: it is returned
  unchanged, with a sum of squares of \<open>2^-200\<close>. The pooled vector \<open>[2^100, 0]\<close>
  has a square that overflows: the all-zero vector is returned. The pooled vector
  \<open>[1.5 * 2^63, 1.5 * 2^63]\<close> has finite squares whose sum overflows: the all-zero
  vector is returned again.
\<close>

theorem embed_unit_norm_counterexample:
  "(\<exists>w'. nativeEmbed (demo_api gguf_only tiny_emb) True demo_world 1 (Some ''abc'')
            = Inr (Some [Finite False (2 ^ 23) (- 123), f32_zero], w'))
   \<and> \<not> is_zero_f32 (Finite False (2 ^ 23) (- 123))
   \<and> exact_sum_squares [Finite False (2 ^ 23) (- 123), f32_zero] = 1 / 2 ^ 200
   \<and> (\<exists>w'. nativeEmbed (demo_api gguf_only huge_emb) True demo_world 1 (Some ''abc'')
            = Inr (Some [f32_zero, f32_zero], w'))
   \<and> \<not> is_zero_f32 (Finite False (2 ^ 23) 77)
   \<and> exact_sum_squares [f32_zero, f32_zero] = 0
   \<and> (\<exists>w'. nativeEmbed (demo_api gguf_only big_emb) True demo_world 1 (Some ''abc'')
            = Inr (Some [f32_zero, f32_zero], w'))
   \<and> \<not> is_zero_f32 (Finite False (3 * 2 ^ 22) 40)
   \<and> f32_mul (Finite False (3 * 2 ^ 22) 40) (Finite False (3 * 2 ^ 22) 40)
       = Finite False (9 * 2 ^ 20) 104
   \<and> sum_squares [Finite False (3 * 2 ^ 22) 40, Finite False (3 * 2 ^ 22) 40] f32_zero
       = Infinity False"
proof (intro conjI)
  show "\<exists>w'. nativeEmbed (demo_api gguf_only tiny_emb) True demo_world 1 (Some ''abc'')
            = Inr (Some [Finite False (2 ^ 23) (- 123), f32_zero], w')"
    by (simp add: embed_eval tiny_emb_def normalize_l2_def f32_eval)
  show "\<exists>w'. nativeEmbed (demo_api gguf_only huge_emb) True demo_world 1 (Some ''abc'')
            = Inr (Some [f32_zero, f32_zero], w')"
    by (simp add: embed_eval huge_emb_def normalize_l2_def f32_eval)
  show "\<exists>w'. nativeEmbed (demo_api gguf_only big_emb) True demo_world 1 (Some ''abc'')
            = Inr (Some [f32_zero, f32_zero], w')"
    by (simp add: embed_eval big_emb_def normalize_l2_def f32_eval)
  show "exact_sum_squares [Finite False (2 ^ 23) (- 123), f32_zero] = 1 / 2 ^ 200"
    by (simp add: pow2_def f32_eval)
  show "exact_sum_squares [f32_zero, f32_zero] = 0"
    by (simp add: pow2_def f32_eval)
  show "f32_mul (Finite False (3 * 2 ^ 22) 40) (Finite False (3 * 2 ^ 22) 40)
       = Finite False (9 * 2 ^ 20) 104"
    by (simp add: f32_eval)
  show "sum_squares [Finite False (3 * 2 ^ 22) 40, Finite False (3 * 2 ^ 22) 40] f32_zero
       = Infinity False"
    by (simp add: f32_eval)
qed (simp_all add: is_zero_f32_def)

end
